theory Spec2Isabelle
  imports Main "HOL-Library.Sublist"
begin

section \<open>WebSocketStream (ext/websocket/02_websocketstream.js)\<close>

text \<open>
  The class \<open>WebSocketStream\<close> is a state machine over four private slots
  (\<open>[[rid]]\<close>, \<open>[[connection]]\<close>, \<open>[[closed]]\<close>, \<open>[[closeSent]]\<close>,
  \<open>[[earlyClose]]\<close>) that is driven by callbacks of the single-threaded event loop.
  Each callback body between two \<open>await\<close>s runs to completion, so it is a function
  from state to state. What the code does to the outside (transport ops issued, resources
  closed, items handed to the readable stream) is written to logs in the state.
\<close>

subsection \<open>Values\<close>

text \<open>
  A JavaScript string that went through the \<open>USVString\<close> converter is a sequence of
  Unicode scalar values. Event payloads are \<open>undefined\<close>, a string or a byte array.
\<close>

type_synonym usv = "nat list"

datatype payload = Undefined | Text usv | Binary "nat list"

datatype js_error =
    DOMException string string   \<comment> \<open>message, name\<close>
  | Error payload                \<comment> \<open>\<open>new Error(value)\<close>\<close>
  | TypeError string
  | Interrupted                  \<comment> \<open>an instance of \<open>core.InterruptedPrototype\<close>\<close>
  | OpError string               \<comment> \<open>any other rejection of a transport op\<close>
  | AbortReason string           \<comment> \<open>\<open>options.signal.reason\<close>\<close>

text \<open>
  \<open>new TextEncoder().encode(r)\<close> yields the UTF-8 encoding of \<open>r\<close>;
  \<open>TypedArrayPrototypeGetByteLength\<close> of it is the number of bytes: one to four per
  scalar value.
\<close>

definition utf8_bytes :: "nat \<Rightarrow> nat" where
  "utf8_bytes c = (if c < 0x80 then 1 else if c < 0x800 then 2 else if c < 0x10000 then 3 else 4)"

definition byteLength :: "usv \<Rightarrow> nat" where
  "byteLength r = sum_list (map utf8_bytes r)"

subsection \<open>Deferred\<close>

text \<open>
  Modelled from the spec: the class \<open>Deferred\<close> is imported from
  \<open>ext:deno_web/06_streams.js\<close>, which is not among the sources. The spec describes it as
  an externally resolvable one-shot future with a completion flag; the code reads its
  \<open>state\<close> as \<open>"pending"\<close> or \<open>"fulfilled"\<close> and calls \<open>resolve\<close> and
  \<open>reject\<close> on it. The first \<open>resolve\<close> or \<open>reject\<close> settles it and sets the state to
  \<open>"fulfilled"\<close>; every later call has no effect.
\<close>

datatype 'a deferred = Pending | Resolved 'a | Rejected js_error

definition resolve :: "'a deferred \<Rightarrow> 'a \<Rightarrow> 'a deferred" where
  "resolve d v = (case d of Pending \<Rightarrow> Resolved v | _ \<Rightarrow> d)"

definition reject :: "'a deferred \<Rightarrow> js_error \<Rightarrow> 'a deferred" where
  "reject d e = (case d of Pending \<Rightarrow> Rejected e | _ \<Rightarrow> d)"

definition dstate :: "'a deferred \<Rightarrow> string" where
  "dstate d = (case d of Pending \<Rightarrow> ''pending'' | _ \<Rightarrow> ''fulfilled'')"

subsection \<open>The instance\<close>

text \<open>
  \<open>closed\<close> is resolved with \<open>undefined\<close>, with the payload of the last event, or with
  an object \<open>{code, reason}\<close>. \<open>connection\<close> is resolved with
  \<open>{readable, writable, extensions, protocol}\<close>; the two streams are part of the state.

  Besides the slots of the class and the two variables of the constructor that its
  callbacks capture, the state holds what an observer of the instance sees: the ops issued
  to the transport, the resource ids passed to \<open>core.close\<close> and \<open>core.tryClose\<close>,
  the items enqueued, the events that \<open>op_ws_next_event\<close> delivered to \<open>pull\<close>, the
  largest number of activations of \<open>pull\<close> that were alive at once, and the wall clock
  at the last resumption.
\<close>

datatype closed_value = Val payload | CodeReason nat payload

record connection_value =
  extensions :: string
  protocol :: string

datatype frame = TextFrame usv | BinaryFrame "nat list" | PongFrame

datatype op =
    op_ws_create nat                                  \<comment> \<open>cancel rid\<close>
  | op_ws_next_event "nat option"
  | op_ws_send "nat option" frame
  | op_ws_close "nat option" "int option" "usv option"

text \<open>
  Modelled from the spec: \<open>ReadableStream\<close>, its controller and \<open>WritableStream\<close> come
  from \<open>ext:deno_web/06_streams.js\<close>, which is not among the sources; the spec takes the
  stream primitive as given. Kept here: whether the readable side can still take items
  (\<open>enqueue\<close> and \<open>close\<close> throw a TypeError once it is closed or errored, \<open>error\<close>
  is ignored then), the items handed to \<open>enqueue\<close>, and the state of the writable
  side: writable, closing (a close was requested and the \<open>close\<close> callback of the sink
  has not returned), closed, or errored (after an abort or a failed write). A close or an
  abort of a writable side that is not writable any more changes nothing.
\<close>

datatype rstate = Readable | RClosed | RErrored js_error

datatype wstate = Writable | WClosing | WClosed | WErrored

record signal =
  aborted :: bool
  sig_reason :: js_error

record wss =
  signal :: "signal option"                \<comment> \<open>\<open>options.signal\<close>, captured by the callbacks\<close>
  cancelRid :: nat                         \<comment> \<open>the cancel handle, captured by the callbacks\<close>
  rid :: "nat option"                      \<comment> \<open>\<open>this[_rid]\<close>, \<open>undefined\<close> at first\<close>
  connection :: "connection_value deferred"
  closed :: "closed_value deferred"
  closeSent :: "int deferred"
  earlyClose :: bool
  readable :: rstate
  enqueued :: "payload list"               \<comment> \<open>items accepted by \<open>controller.enqueue\<close>\<close>
  writable :: wstate
  ops :: "op list"                         \<comment> \<open>transport ops issued, oldest first\<close>
  released :: "nat option list"            \<comment> \<open>arguments of \<open>core.close\<close> and \<open>core.tryClose\<close>\<close>
  inbound :: "(nat \<times> payload) list"        \<comment> \<open>events that \<open>op_ws_next_event\<close> delivered\<close>
  frames :: nat                            \<comment> \<open>most activations of \<open>pull\<close> alive at once\<close>
  now :: int                               \<comment> \<open>\<open>new Date().getTime()\<close>\<close>

definition new_wss :: "signal option \<Rightarrow> nat \<Rightarrow> wss" where
  "new_wss sig c = \<lparr> signal = sig, cancelRid = c, rid = None, connection = Pending,
     closed = Pending, closeSent = Pending, earlyClose = False, readable = Readable,
     enqueued = [], writable = Writable, ops = [], released = [], inbound = [],
     frames = 0, now = 0 \<rparr>"

definition issue :: "op \<Rightarrow> wss \<Rightarrow> wss" where
  "issue x s = s\<lparr>ops := ops s @ [x]\<rparr>"

definition tryClose :: "nat option \<Rightarrow> wss \<Rightarrow> wss" where
  "tryClose r s = s\<lparr>released := released s @ [r]\<rparr>"

definition reject_both :: "js_error \<Rightarrow> wss \<Rightarrow> wss" where
  "reject_both err s =
    (let s1 = s\<lparr>connection := reject (connection s) err\<rparr>
     in s1\<lparr>closed := reject (closed s1) err\<rparr>)"

subsection \<open>close(closeInfo)\<close>

text \<open>
  \<open>webidl.converters.WebSocketCloseInfo\<close> turns the argument into a dictionary with an
  optional \<open>code\<close> (an \<open>unsigned short\<close>) and a \<open>reason\<close> that defaults to the empty
  string. \<open>close()\<close> and \<open>close({})\<close> give \<open>no_info\<close>.
\<close>

record closeInfo =
  code :: "int option"
  reason :: usv

definition no_info :: closeInfo where
  "no_info = \<lparr> code = None, reason = [] \<rparr>"

definition truthy_code :: "int option \<Rightarrow> bool" where
  "truthy_code c = (case c of None \<Rightarrow> False | Some n \<Rightarrow> n \<noteq> 0)"

definition code_error :: js_error where
  "code_error = DOMException
     ''The close code must be either 1000 or in the range of 3000 to 4999.''
     ''InvalidAccessError''"

definition reason_error :: js_error where
  "reason_error = DOMException
     ''The close reason may not be longer than 123 bytes.'' ''SyntaxError''"

text \<open>
  The method returns the exception it throws, if any, next to the state it leaves behind.
  The two callbacks of the \<open>op_ws_close\<close> promise are \<open>close_sent\<close> (the timer that the
  fulfilment handler sets, running at wall-clock time \<open>t\<close>) and \<open>close_failed\<close>.
\<close>

definition close :: "wss \<Rightarrow> closeInfo \<Rightarrow> js_error option \<times> wss" where
  "close s closeInfo =
    (if truthy_code (code closeInfo) \<and>
        \<not> (code closeInfo = Some 1000 \<or>
           (case code closeInfo of None \<Rightarrow> False | Some c \<Rightarrow> 3000 \<le> c \<and> c < 5000))
     then (Some code_error, s)
     else if reason closeInfo \<noteq> [] \<and> byteLength (reason closeInfo) > 123
     then (Some reason_error, s)
     else
       let code = (if reason closeInfo \<noteq> [] \<and> code closeInfo = None
                   then Some 1000 else code closeInfo)
       in if dstate (connection s) = ''pending''
          then (None, s\<lparr>earlyClose := True\<rparr>)
          else if dstate (closed s) = ''pending''
          then (None, issue (op_ws_close (rid s) code (Some (reason closeInfo))) s)
          else (None, s))"

definition close_sent :: "int \<Rightarrow> wss \<Rightarrow> wss" where
  "close_sent t s = s\<lparr>now := t, closeSent := resolve (closeSent s) t\<rparr>"

definition close_failed :: "js_error \<Rightarrow> wss \<Rightarrow> wss" where
  "close_failed err s =
    (let s1 = (if rid s \<noteq> None \<and> rid s \<noteq> Some 0 then tryClose (rid s) s else s)
     in s1\<lparr>closed := reject (closed s1) err\<rparr>)"

subsection \<open>The stream callbacks\<close>

text \<open>
  \<open>sink_write\<close> is \<open>write\<close> of the writable side. \<open>close\<close> and \<open>abort\<close> of the writable side
  and \<open>cancel\<close> of the readable side have the same body, \<open>stream_close\<close>: it calls
  \<open>this.close\<close> with the reason when that carries a code, and again without argument
  when the first call threw, then awaits \<open>closed\<close>.
\<close>

datatype chunk = StringChunk usv | BytesChunk "nat list" | OtherChunk

definition sink_write :: "chunk \<Rightarrow> wss \<Rightarrow> js_error option \<times> wss" where
  "sink_write c s =
    (case c of
       StringChunk v \<Rightarrow> (None, issue (op_ws_send (rid s) (TextFrame v)) s)
     | BytesChunk b \<Rightarrow> (None, issue (op_ws_send (rid s) (BinaryFrame b)) s)
     | OtherChunk \<Rightarrow>
         (Some (TypeError ''A chunk may only be either a string or an Uint8Array''), s))"

definition stream_close :: "closeInfo option \<Rightarrow> wss \<Rightarrow> wss" where
  "stream_close r s =
    (let info = (case r of None \<Rightarrow> no_info
                 | Some i \<Rightarrow> if code i \<noteq> None then i else no_info)
     in case close s info of
          (None, s1) \<Rightarrow> s1
        | (Some _, s1) \<Rightarrow> snd (close s1 no_info))"

definition enqueue :: "payload \<Rightarrow> wss \<Rightarrow> js_error + wss" where
  "enqueue v s =
    (if readable s = Readable then Inr (s\<lparr>enqueued := enqueued s @ [v]\<rparr>)
     else Inl (TypeError ''The stream controller cannot close or enqueue''))"

definition controller_error :: "js_error \<Rightarrow> wss \<Rightarrow> wss" where
  "controller_error e s = (if readable s = Readable then s\<lparr>readable := RErrored e\<rparr> else s)"

definition controller_close :: "wss \<Rightarrow> js_error + wss" where
  "controller_close s =
    (if readable s = Readable then Inr (s\<lparr>readable := RClosed\<rparr>)
     else Inl (TypeError ''The stream controller cannot close or enqueue''))"

text \<open>
  What the stream primitive does around the callbacks. A \<open>write\<close> that rejects puts the
  writable side in the errored state (\<open>writable_error\<close>). An abort of a writable side
  puts it in the errored state and runs the \<open>abort\<close> callback (\<open>writable_abort\<close>). A
  cancel of a readable side closes it and runs the \<open>cancel\<close> callback
  (\<open>readable_cancel\<close>). \<open>writableStreamClose\<close> on a writable side makes it closing and
  runs the \<open>close\<close> callback, which ends in \<open>await this.closed\<close>: the side is closed
  when that await returns and errored when it throws (\<open>sink_close_finish\<close>); on a side
  that is not writable it only returns a rejected promise or fails an assertion, which the
  caller swallows.
\<close>

definition writable_error :: "wss \<Rightarrow> wss" where
  "writable_error s = (if writable s = Writable then s\<lparr>writable := WErrored\<rparr> else s)"

definition writable_abort :: "closeInfo option \<Rightarrow> wss \<Rightarrow> wss" where
  "writable_abort r s =
    (if writable s = Writable then stream_close r (s\<lparr>writable := WErrored\<rparr>) else s)"

definition readable_cancel :: "closeInfo option \<Rightarrow> wss \<Rightarrow> wss" where
  "readable_cancel r s =
    (if readable s = Readable then stream_close r (s\<lparr>readable := RClosed\<rparr>) else s)"

definition sink_close_finish :: "wss \<Rightarrow> wss" where
  "sink_close_finish s =
    (if writable s = WClosing then
       (case closed s of
          Resolved _ \<Rightarrow> s\<lparr>writable := WClosed\<rparr>
        | Rejected _ \<Rightarrow> s\<lparr>writable := WErrored\<rparr>
        | Pending \<Rightarrow> s)
     else s)"

definition writableStreamClose :: "wss \<Rightarrow> wss" where
  "writableStreamClose s =
    (if writable s = Writable
     then sink_close_finish (stream_close None (s\<lparr>writable := WClosing\<rparr>))
     else s)"

text \<open>
  The reaction that \<open>start\<close> registers on \<open>this.closed\<close> has a fulfilment handler only,
  so it runs when \<open>closed\<close> has been resolved and not when it has been rejected.
\<close>

definition closed_then :: "wss \<Rightarrow> wss" where
  "closed_then s =
    (case closed s of
       Resolved _ \<Rightarrow>
         writableStreamClose (case controller_close s of Inl _ \<Rightarrow> s | Inr s1 \<Rightarrow> s1)
     | _ \<Rightarrow> s)"

subsection \<open>The constructor, from the cancel handle on\<close>

record create =
  create_rid :: nat
  create_extensions :: "string option"
  create_protocol :: "string option"

definition closed_while_connecting :: js_error where
  "closed_while_connecting = DOMException ''Closed while connecting'' ''NetworkError''"

definition signal_aborted :: "signal option \<Rightarrow> bool" where
  "signal_aborted sig = (case sig of None \<Rightarrow> False | Some g \<Rightarrow> aborted g)"

definition construct :: "signal option \<Rightarrow> nat \<Rightarrow> wss" where
  "construct sig c =
    (let s = new_wss sig c in
     case sig of
       Some g \<Rightarrow>
         if aborted g then reject_both (sig_reason g) (tryClose (Some c) s)
         else issue (op_ws_create c) s
     | None \<Rightarrow> issue (op_ws_create c) s)"

definition abort :: "wss \<Rightarrow> wss" where
  "abort s = tryClose (Some (cancelRid s)) s"

definition create_resolved :: "create \<Rightarrow> wss \<Rightarrow> wss" where
  "create_resolved cr s =
    (if earlyClose s then issue (op_ws_close (Some (create_rid cr)) None None) s
     else
       let s1 = s\<lparr>rid := Some (create_rid cr)\<rparr>
       in s1\<lparr>connection := resolve (connection s1)
             \<lparr> extensions = (case create_extensions cr of None \<Rightarrow> [] | Some e \<Rightarrow> e),
               protocol = (case create_protocol cr of None \<Rightarrow> [] | Some p \<Rightarrow> p) \<rparr>\<rparr>)"

definition create_rejected :: "js_error \<Rightarrow> wss \<Rightarrow> wss" where
  "create_rejected err s =
    (if err = Interrupted then
       (case signal s of
          None \<Rightarrow> s    \<comment> \<open>reading \<open>reason\<close> of \<open>undefined\<close> throws inside the handler\<close>
        | Some g \<Rightarrow> reject_both (sig_reason g) s)
     else reject_both err (tryClose (Some (cancelRid s)) s))"

subsection \<open>The event pump\<close>

text \<open>
  \<open>pull\<close> is an async function: it suspends at each \<open>await\<close> of a transport op and is
  resumed by the reply. A schedule lists the replies in the order in which the awaits of
  one invocation are resumed, each with the wall-clock time of the resumption: the reply
  to \<open>op_ws_next_event\<close> is an event (kind and value) or a failure, the reply to
  \<open>op_ws_send\<close> is a success (its value is ignored) or a failure. When the schedule is
  used up the invocation stays suspended. The result is how the invocation ended, the
  state it left, and the replies it did not use.

  The function has three parts: \<open>pull\<close> is the await of the next event, \<open>switch\<close>
  the dispatch on the kind, \<open>after_switch\<close> the check that follows it. The first
  argument counts the activations of \<open>pull\<close> that are suspended in
  \<open>await pull(controller)\<close> around the current one.
\<close>

datatype reply = Ok nat payload | Failed js_error
type_synonym schedule = "(int \<times> reply) list"
datatype outcome = Returned | Threw js_error | Suspended

definition enter :: "nat \<Rightarrow> wss \<Rightarrow> wss" where
  "enter d s = issue (op_ws_next_event (rid s)) (s\<lparr>frames := max (frames s) (Suc d)\<rparr>)"

definition deliver :: "int \<Rightarrow> nat \<Rightarrow> payload \<Rightarrow> wss \<Rightarrow> wss" where
  "deliver t kind val s = s\<lparr>now := t, inbound := inbound s @ [(kind, val)]\<rparr>"

function pull :: "nat \<Rightarrow> wss \<Rightarrow> schedule \<Rightarrow> outcome \<times> wss \<times> schedule"
  and switch :: "nat \<Rightarrow> nat \<Rightarrow> payload \<Rightarrow> wss \<Rightarrow> schedule \<Rightarrow> outcome \<times> wss \<times> schedule"
  and after_switch :: "nat \<Rightarrow> payload \<Rightarrow> wss \<Rightarrow> schedule \<Rightarrow> outcome \<times> wss \<times> schedule"
where
  "pull d s [] = (Suspended, enter d s, [])"
| "pull d s ((t, Failed e) # rest) = (Threw e, (enter d s)\<lparr>now := t\<rparr>, rest)"
| "pull d s ((t, Ok kind val) # rest) = switch d kind val (deliver t kind val (enter d s)) rest"
| "switch d kind val s rest =
    (if kind = 0 \<or> kind = 1 then
       (case enqueue val s of
          Inl e \<Rightarrow> (Threw e, s, rest)
        | Inr s1 \<Rightarrow> after_switch d val s1 rest)
     else if kind = 5 then
       (let err = Error val;
            s1 = s\<lparr>closed := reject (closed s) err\<rparr>;
            s2 = controller_error err s1
        in after_switch d val (tryClose (rid s2) s2) rest)
     else if kind = 3 then
       (let s1 = issue (op_ws_send (rid s) PongFrame) s in
        case rest of
          [] \<Rightarrow> (Suspended, s1, [])
        | (t, Failed e) # rest' \<Rightarrow> (Threw e, s1\<lparr>now := t\<rparr>, rest')
        | (t, Ok _ _) # rest' \<Rightarrow>
           (case pull (Suc d) (s1\<lparr>now := t\<rparr>) rest' of
              (Returned, s2, rest'') \<Rightarrow> after_switch d val s2 rest''
            | r \<Rightarrow> r))
     else if kind = 2 then after_switch d val s rest
     else if kind = 6 then
       (let s1 = s\<lparr>closed := resolve (closed s) (Val Undefined)\<rparr>
        in after_switch d val (tryClose (rid s1) s1) rest)
     else
       (let s1 = s\<lparr>closed := resolve (closed s) (CodeReason kind val)\<rparr>
        in after_switch d val (tryClose (rid s1) s1) rest))"
| "after_switch d val s sched =
    (if dstate (closeSent s) = ''fulfilled'' \<and> dstate (closed s) = ''pending'' then
       (case closeSent s of
          Resolved t0 \<Rightarrow>
            if now s - t0 \<le> 5000 then pull d s sched
            else (let s1 = s\<lparr>closed := resolve (closed s) (Val val)\<rparr>
                  in (Returned, tryClose (rid s1) s1, sched))
        | Rejected e \<Rightarrow> (Threw e, s, sched)
        | Pending \<Rightarrow> (Returned, s, sched))
     else (Returned, s, sched))"
  by pat_completeness auto

lemma pull_shrinks:
  "pull_switch_after_switch_dom (Inl (d, s, sched)) \<Longrightarrow>
     length (snd (snd (pull d s sched))) \<le> length sched"
  "pull_switch_after_switch_dom (Inr (Inl (d1, k1, v1, s1, sched1))) \<Longrightarrow>
     length (snd (snd (switch d1 k1 v1 s1 sched1))) \<le> length sched1"
  "pull_switch_after_switch_dom (Inr (Inr (d2, v2, s2, sched2))) \<Longrightarrow>
     length (snd (snd (after_switch d2 v2 s2 sched2))) \<le> length sched2"
proof (induction d s sched and d1 k1 v1 s1 sched1 and d2 v2 s2 sched2
       rule: pull_switch_after_switch.pinduct)
  case (1 d s)
  then show ?case by (simp add: pull.psimps)
next
  case (2 d s t e rest)
  then show ?case by (simp add: pull.psimps)
next
  case (3 d s t kind val rest)
  then show ?case by (simp add: pull.psimps)
next
  case (4 d kind val s rest)
  note eq = switch.psimps [OF "4.hyps"]
  consider (msg) "kind = 0 \<or> kind = 1" | (err) "kind = 5" | (ping) "kind = 3"
    | (pong) "kind = 2" | (closed) "kind = 6"
    | (close) "\<not> (kind = 0 \<or> kind = 1)" "kind \<noteq> 5" "kind \<noteq> 3" "kind \<noteq> 2" "kind \<noteq> 6"
    by blast
  then show ?case
  proof cases
    case msg
    show ?thesis
    proof (cases "enqueue val s")
      case (Inl e)
      with msg show ?thesis unfolding eq by (simp add: Let_def)
    next
      case (Inr b)
      with msg "4.IH"(1) [OF msg Inr] show ?thesis unfolding eq by (simp add: Let_def)
    qed
  next
    case err
    with "4.IH"(2) [OF _ err refl refl refl] show ?thesis unfolding eq by (simp add: Let_def)
  next
    case ping
    show ?thesis
    proof (cases rest)
      case Nil
      with ping show ?thesis unfolding eq by (simp add: Let_def)
    next
      case (Cons a rest')
      obtain t r where a: "a = (t, r)" by (cases a)
      show ?thesis
      proof (cases r)
        case (Failed e)
        with ping Cons a show ?thesis unfolding eq by (simp add: Let_def)
      next
        case (Ok k v)
        let ?s1 = "issue (op_ws_send (rid s) PongFrame) s"
        have rest: "rest = (t, Ok k v) # rest'" using Cons a Ok by simp
        have inner: "length (snd (snd (pull (Suc d) (?s1\<lparr>now := t\<rparr>) rest'))) \<le> length rest'"
          using "4.IH"(3) [OF _ _ ping refl rest refl refl] ping by simp
        obtain out s2 rest'' where p: "pull (Suc d) (?s1\<lparr>now := t\<rparr>) rest' = (out, s2, rest'')"
          by (cases "pull (Suc d) (?s1\<lparr>now := t\<rparr>) rest'") auto
        show ?thesis
        proof (cases out)
          case Returned
          have "length (snd (snd (after_switch d val s2 rest''))) \<le> length rest''"
            using "4.IH"(4) [OF _ _ ping refl rest refl refl, of Returned "(s2, rest'')" s2 rest'']
              ping p Returned by simp
          with inner p Returned ping rest show ?thesis unfolding eq by (simp add: Let_def)
        next
          case (Threw e)
          with inner p ping rest show ?thesis unfolding eq by (simp add: Let_def)
        next
          case Suspended
          with inner p ping rest show ?thesis unfolding eq by (simp add: Let_def)
        qed
      qed
    qed
  next
    case pong
    with "4.IH"(5) show ?thesis unfolding eq by (simp add: Let_def)
  next
    case closed
    with "4.IH"(6) [OF _ _ _ _ closed refl] show ?thesis unfolding eq by (simp add: Let_def)
  next
    case close
    with "4.IH"(7) [OF close refl] show ?thesis unfolding eq by (simp add: Let_def)
  qed
next
  case (5 d val s sched)
  show ?case
  proof (cases "closeSent s")
    case Pending
    then show ?thesis by (simp add: after_switch.psimps [OF "5.hyps"])
  next
    case (Resolved t0)
    with "5.IH" [OF _ Resolved] show ?thesis
      by (simp add: after_switch.psimps [OF "5.hyps"])
  next
    case (Rejected e)
    then show ?thesis by (simp add: after_switch.psimps [OF "5.hyps"])
  qed
qed

lemma pull_shrinks_dom:
  assumes "pull_switch_after_switch_dom (Inl (d, s, sched))" and "(out, s', rest) = pull d s sched"
  shows "length rest \<le> length sched"
  using pull_shrinks(1) [OF assms(1)] assms(2) [symmetric] by simp

termination pull
  apply (relation "measure (\<lambda>x. case x of
            Inl (d, s, sched) \<Rightarrow> 3 * length sched
          | Inr (Inl (d, k, v, s, sched)) \<Rightarrow> 3 * length sched + 2
          | Inr (Inr (d, v, s, sched)) \<Rightarrow> 3 * length sched + 1)")
  apply simp_all
  apply (auto split: prod.splits dest: pull_shrinks_dom)
  done

text \<open>
  The second reaction that \<open>start\<close> registers runs when \<open>closeSent\<close> has been
  resolved: it starts a \<open>pull\<close> if \<open>closed\<close> is still pending.
\<close>

definition closeSent_then :: "wss \<Rightarrow> schedule \<Rightarrow> outcome \<times> wss \<times> schedule" where
  "closeSent_then s sched =
    (case closeSent s of
       Resolved _ \<Rightarrow>
         if dstate (closed s) = ''pending'' then pull 0 s sched else (Returned, s, sched)
     | _ \<Rightarrow> (Returned, s, sched))"

subsection \<open>Close before the connection is there\<close>

text \<open>
  When \<open>op_ws_create\<close> succeeds after an early \<open>close\<close>, the constructor sends a close
  on the new handle (\<open>create_resolved\<close> above). If that op fails, both futures are
  rejected (\<open>early_close_rejected\<close>). If it succeeds, a loop reads events from the
  handle until one has a kind above 6; only when the loop returns are both futures
  rejected. The promise of the loop has no rejection handler.
\<close>

fun drain :: "nat \<Rightarrow> wss \<Rightarrow> schedule \<Rightarrow> outcome \<times> wss \<times> schedule" where
  "drain r s [] = (Suspended, issue (op_ws_next_event (Some r)) s, [])"
| "drain r s ((t, Failed e) # rest) =
     (Threw e, (issue (op_ws_next_event (Some r)) s)\<lparr>now := t\<rparr>, rest)"
| "drain r s ((t, Ok kind val) # rest) =
     (let s1 = deliver t kind val (issue (op_ws_next_event (Some r)) s)
      in if kind > 6 then (Returned, s1, rest) else drain r s1 rest)"

definition early_close_resolved :: "nat \<Rightarrow> schedule \<Rightarrow> wss \<Rightarrow> wss" where
  "early_close_resolved r sched s =
    (case drain r s sched of
       (Returned, s1, _) \<Rightarrow> reject_both closed_while_connecting s1
     | (_, s1, _) \<Rightarrow> s1)"

definition early_close_rejected :: "wss \<Rightarrow> wss" where
  "early_close_rejected s = reject_both closed_while_connecting s"

subsection \<open>Executions\<close>

text \<open>
  An execution of one instance is a sequence of callbacks, each running to its end or to
  an await that is never resumed. A \<open>pull\<close> that is resumed after other callbacks ran
  is a \<open>Pull\<close> for the replies before them, then those callbacks, then a \<open>Pull\<close> for
  the replies after them; \<open>Resume\<close> is an activation of \<open>pull\<close> that continues
  behind its \<open>await pull(controller)\<close>. When a \<open>pull\<close> that the readable stream
  called rejects, the stream puts its readable side in the errored state.
\<close>

datatype action =
    Abort
  | CreateResolved create
  | CreateRejected js_error
  | EarlyCloseResolved nat schedule
  | EarlyCloseRejected
  | Close closeInfo
  | CloseSentTimer int
  | CloseFailed js_error
  | Pull schedule
  | Resume payload schedule
  | ClosedThen
  | CloseSentThen schedule
  | WriterClose
  | SinkCloseFinish
  | WriterAbort "closeInfo option"
  | ReaderCancel "closeInfo option"
  | Write chunk
  | WriteFailed

fun step :: "wss \<Rightarrow> action \<Rightarrow> wss" where
  "step s Abort = abort s"
| "step s (CreateResolved cr) = create_resolved cr s"
| "step s (CreateRejected err) = create_rejected err s"
| "step s (EarlyCloseResolved r sched) = early_close_resolved r sched s"
| "step s EarlyCloseRejected = early_close_rejected s"
| "step s (Close info) = snd (close s info)"
| "step s (CloseSentTimer t) = close_sent t s"
| "step s (CloseFailed err) = close_failed err s"
| "step s (Pull sched) =
     (case pull 0 s sched of
        (Threw e, s1, _) \<Rightarrow> controller_error e s1
      | (_, s1, _) \<Rightarrow> s1)"
| "step s (Resume val sched) = fst (snd (after_switch 0 val s sched))"
| "step s ClosedThen = closed_then s"
| "step s (CloseSentThen sched) = fst (snd (closeSent_then s sched))"
| "step s WriterClose = writableStreamClose s"
| "step s SinkCloseFinish = sink_close_finish s"
| "step s (WriterAbort r) = writable_abort r s"
| "step s (ReaderCancel r) = readable_cancel r s"
| "step s (Write c) =
     (case sink_write c s of
        (None, s1) \<Rightarrow> s1
      | (Some _, s1) \<Rightarrow> writable_error s1)"
| "step s WriteFailed = writable_error s"

definition run :: "wss \<Rightarrow> action list \<Rightarrow> wss" where
  "run s acts = foldl step s acts"

definition settled :: "'a deferred \<Rightarrow> bool" where
  "settled d = (d \<noteq> Pending)"

subsection \<open>The states and the close request of the specification\<close>

text \<open>
  The specification names six states of an instance. \<open>state_of\<close> reads them off the
  slots, following its section 3: the instance is Closed or Errored once \<open>closed\<close> is
  resolved or rejected; before that it is Connecting or EarlyClosed while \<open>connection\<close>
  is pending, and Open or CloseSent afterwards, CloseSent from the moment the close-sent
  timestamp is recorded.
\<close>

datatype stream_state = SConnecting | SEarlyClosed | SOpen | SCloseSent | SClosed | SErrored

definition state_of :: "wss \<Rightarrow> stream_state" where
  "state_of s =
    (case closed s of
       Resolved _ \<Rightarrow> SClosed
     | Rejected _ \<Rightarrow> SErrored
     | Pending \<Rightarrow>
        (case connection s of
           Pending \<Rightarrow> if earlyClose s then SEarlyClosed else SConnecting
         | _ \<Rightarrow> if settled (closeSent s) then SCloseSent else SOpen))"

text \<open>
  A close request in the words of the specification: the code, if there is one, is 1000 or
  lies in [3000, 5000), and the reason has at most 123 bytes in UTF-8.
\<close>

definition valid_closeInfo :: "closeInfo \<Rightarrow> bool" where
  "valid_closeInfo info =
    ((case code info of None \<Rightarrow> True | Some c \<Rightarrow> c = 1000 \<or> (3000 \<le> c \<and> c < 5000)) \<and>
     byteLength (reason info) \<le> 123)"

subsection \<open>Some instances\<close>

definition create7 :: create where
  "create7 = \<lparr> create_rid = 7, create_extensions = None, create_protocol = None \<rparr>"

definition open_example :: wss where
  "open_example = run (construct None 1) [CreateResolved create7]"

definition close_sent_example :: wss where
  "close_sent_example = run open_example [Close no_info, CloseSentTimer 10]"

definition close_failed_example :: wss where
  "close_failed_example = run open_example [Close no_info, CloseFailed (OpError ''broken pipe'')]"

subsection \<open>Settlement\<close>

text \<open>
  \<open>keeps d d'\<close>: the future \<open>d'\<close> is \<open>d\<close>, or \<open>d\<close> was pending. \<open>kept\<close> is
  the same for the two futures of an instance across the pump, which never touches
  \<open>connection\<close>. \<open>settles_connection s a\<close> and \<open>settles_closed s a\<close> say that in
  state \<open>s\<close> the callback \<open>a\<close> is one of the paths of the code that settle the
  future: for \<open>connection\<close> the success of the connect without an early close, its
  failure, and the two ends of the early close; for \<open>closed\<close> the failure of the
  connect, the two ends of the early close, the failure of the close request, an Error
  event, a terminal event (Closed, or a kind outside 0 to 6) and the check after the
  switch once more than 5000 ms have passed since the close-sent timestamp.
\<close>

definition keeps :: "'a deferred \<Rightarrow> 'a deferred \<Rightarrow> bool" where
  "keeps d d' = (d = Pending \<or> d' = d)"

definition settles_connection :: "wss \<Rightarrow> action \<Rightarrow> bool" where
  "settles_connection s a =
    (case a of
       CreateResolved cr \<Rightarrow> \<not> earlyClose s
     | CreateRejected err \<Rightarrow> err \<noteq> Interrupted \<or> signal s \<noteq> None
     | EarlyCloseRejected \<Rightarrow> True
     | EarlyCloseResolved r sched \<Rightarrow> fst (drain r s sched) = Returned
     | _ \<Rightarrow> False)"

definition settles_closed :: "wss \<Rightarrow> action \<Rightarrow> bool" where
  "settles_closed s a =
    (case a of
       CreateRejected err \<Rightarrow> err \<noteq> Interrupted \<or> signal s \<noteq> None
     | EarlyCloseRejected \<Rightarrow> True
     | EarlyCloseResolved r sched \<Rightarrow> fst (drain r s sched) = Returned
     | CloseFailed err \<Rightarrow> True
     | Pull sched \<Rightarrow>
        (case sched of
           (t, Ok kind val) # rest \<Rightarrow> kind = 5 \<or> kind = 6 \<or> kind = 4 \<or> kind > 6
         | _ \<Rightarrow> False)
     | Resume val sched \<Rightarrow>
        (case closeSent s of Resolved t0 \<Rightarrow> now s - t0 > 5000 | _ \<Rightarrow> False)
     | _ \<Rightarrow> False)"

definition kept :: "wss \<Rightarrow> wss \<Rightarrow> bool" where
  "kept s s' = (keeps (closed s) (closed s') \<and> connection s' = connection s)"

text \<open>
  \<open>early_closed\<close> is an instance on which \<open>close\<close> was called before the connect
  succeeded; \<open>error_example\<close> has received an Error event, \<open>clean_example\<close> a Closed
  event, \<open>aborted_example\<close> a Closed event after its writable side was aborted. In
  \<open>stalled_example\<close> the loop after an early close has read a Closed event and then
  failed.
\<close>

definition early_closed :: "signal option \<Rightarrow> nat \<Rightarrow> closeInfo \<Rightarrow> create \<Rightarrow> wss" where
  "early_closed sig c info cr = run (construct sig c) [Close info, CreateResolved cr]"

definition error_example :: wss where
  "error_example = run open_example [Pull [(1, Ok 5 (Text [98, 97, 100]))]]"

definition clean_example :: wss where
  "clean_example = run open_example [Pull [(1, Ok 6 Undefined)]]"

definition aborted_example :: wss where
  "aborted_example = run open_example [WriterAbort None, Pull [(1, Ok 6 Undefined)]]"

definition stalled_example :: wss where
  "stalled_example = run (construct None 1)
     [Close no_info, CreateResolved create7,
      EarlyCloseResolved 7 [(1, Ok 6 Undefined), (2, Failed (OpError ''connection closed''))]]"

subsection \<open>Measuring the pump\<close>

text \<open>
  \<open>pongs\<close> counts the Pong frames handed to \<open>op_ws_send\<close>, \<open>pings\<close> the Ping
  events delivered to \<open>pull\<close>, \<open>messages\<close> lists the payloads of the Text and Binary
  events among some events. \<open>ping_flood n\<close> is the schedule of \<open>n\<close> Ping events in a
  row, each followed by the reply to the Pong that answers it. \<open>pumped owed pend s s'\<close>
  relates the state before a part of the pump to the state after it: the Pongs sent are
  the Pings received plus \<open>owed\<close>, and the items enqueued are among \<open>pend\<close> and the
  payloads of the Text and Binary events received, in their order.
\<close>

definition is_pong_send :: "op \<Rightarrow> bool" where
  "is_pong_send x = (case x of op_ws_send _ PongFrame \<Rightarrow> True | _ \<Rightarrow> False)"

definition pongs :: "wss \<Rightarrow> nat" where
  "pongs s = length (filter is_pong_send (ops s))"

definition pings :: "wss \<Rightarrow> nat" where
  "pings s = length (filter (\<lambda>(kind, val). kind = 3) (inbound s))"

definition messages :: "(nat \<times> payload) list \<Rightarrow> payload list" where
  "messages evs = map snd (filter (\<lambda>(kind, val). kind = 0 \<or> kind = 1) evs)"

definition ping_flood :: "nat \<Rightarrow> schedule" where
  "ping_flood n = concat (replicate n [(0, Ok 3 Undefined), (0, Ok 0 Undefined)])"

definition pumped :: "nat \<Rightarrow> payload list \<Rightarrow> wss \<Rightarrow> wss \<Rightarrow> bool" where
  "pumped owed pend s s' =
    (pongs s' + pings s = pongs s + pings s' + owed \<and>
     (\<exists>evs items. inbound s' = inbound s @ evs \<and> enqueued s' = enqueued s @ items \<and>
        subseq items (pend @ messages evs)))"

section \<open>Properties\<close>

subsection \<open>Basic facts\<close>

declare switch.simps [simp del] after_switch.simps [simp del]

lemma dstate_simps [simp]:
  "dstate Pending = ''pending''" "dstate (Resolved v) = ''fulfilled''"
  "dstate (Rejected e) = ''fulfilled''"
  by (simp_all add: dstate_def)

lemma dstate_pending_iff [simp]: "(dstate d = ''pending'') = (d = Pending)"
  by (cases d) simp_all

lemma dstate_fulfilled_iff [simp]: "(dstate d = ''fulfilled'') = (d \<noteq> Pending)"
  by (cases d) simp_all

lemmas example_defs = open_example_def close_sent_example_def close_failed_example_def
  create7_def run_def construct_def new_wss_def create_resolved_def close_def close_sent_def
  close_failed_def issue_def tryClose_def resolve_def reject_def no_info_def truthy_code_def
  Let_def

lemma open_example_state: "state_of open_example = SOpen"
  by (simp add: example_defs state_of_def settled_def)

lemma byteLength_replicate: "byteLength (replicate n c) = n * utf8_bytes c"
  by (simp add: byteLength_def sum_list_replicate)

subsection \<open>Validation in close\<close>

text \<open>
  A code other than 0 is refused exactly when it is neither 1000 nor in [3000, 5000), and a
  call that throws leaves the instance as it was.
\<close>

lemma close_code_check:
  "c \<noteq> 0 \<Longrightarrow> (fst (close s \<lparr>code = Some c, reason = r\<rparr>) = Some code_error)
     = (\<not> (c = 1000 \<or> (3000 \<le> c \<and> c < 5000)))"
  by (auto simp: close_def truthy_code_def Let_def code_error_def reason_error_def)

lemma close_error_keeps_state: "fst (close s info) \<noteq> None \<Longrightarrow> snd (close s info) = s"
  unfolding close_def Let_def by (auto split: if_splits)

text \<open>
  C2. The claim: for every integer \<open>c\<close>, \<open>close({code: c})\<close> passes the validation of the
  code if and only if \<open>c\<close> is 1000 or lies in [3000, 5000). The guard of the check is the
  truthiness of \<open>closeInfo.code\<close>, so the code 0 is never checked: on an open instance
  \<open>close({code: 0})\<close> throws nothing and sends a close with code 0 to the transport,
  although 0 is neither 1000 nor in the range that the error message of the same check
  names.
\<close>

theorem close_code_zero_accepted:
  "close open_example \<lparr>code = Some 0, reason = []\<rparr>
     = (None, issue (op_ws_close (Some 7) (Some 0) (Some [])) open_example)"
  by (simp add: example_defs)

text \<open>
  C8. For every reason \<open>r\<close> of more than 123 bytes, \<open>close\<close> with this reason throws
  (with any code; the SyntaxError of the reason check when there is no code), and the
  instance is left exactly as it was: no flag is set and no op is issued. A following call
  with a valid request does not throw; it sets the early-close flag on a connecting
  instance and sends the close on an open one.
\<close>

theorem close_reason_too_long:
  assumes "byteLength r > 123"
  shows "fst (close s \<lparr>code = co, reason = r\<rparr>) \<noteq> None
       \<and> snd (close s \<lparr>code = co, reason = r\<rparr>) = s
       \<and> close s \<lparr>code = None, reason = r\<rparr> = (Some reason_error, s)
       \<and> (valid_closeInfo info \<longrightarrow>
            fst (close s info) = None
          \<and> (state_of s = SConnecting \<longrightarrow> earlyClose (snd (close s info)))
          \<and> (state_of s = SOpen \<longrightarrow>
               (\<exists>c. snd (close s info) = issue (op_ws_close (rid s) c (Some (reason info))) s)))"
proof -
  from assms have r: "r \<noteq> []" by (auto simp: byteLength_def)
  have 1: "fst (close s \<lparr>code = co, reason = r\<rparr>) \<noteq> None"
    using assms r by (simp add: close_def)
  have 2: "snd (close s \<lparr>code = co, reason = r\<rparr>) = s"
    using assms r by (simp add: close_def)
  have 3: "close s \<lparr>code = None, reason = r\<rparr> = (Some reason_error, s)"
    using assms r by (simp add: close_def truthy_code_def)
  have 4: "fst (close s info) = None" if "valid_closeInfo info"
    using that
    by (auto simp: close_def valid_closeInfo_def truthy_code_def Let_def split: option.splits)
  have 5: "earlyClose (snd (close s info))" if "valid_closeInfo info" "state_of s = SConnecting"
    using that
    by (auto simp: close_def valid_closeInfo_def truthy_code_def Let_def state_of_def
        split: option.splits deferred.splits if_splits)
  have 6: "\<exists>c. snd (close s info) = issue (op_ws_close (rid s) c (Some (reason info))) s"
    if "valid_closeInfo info" "state_of s = SOpen"
    using that
    by (auto simp: close_def valid_closeInfo_def truthy_code_def Let_def state_of_def
        split: option.splits deferred.splits if_splits)
  from 1 2 3 4 5 6 show ?thesis by blast
qed

theorem close_reason_too_long_witness:
  "byteLength (replicate 124 65) > 123 \<and> valid_closeInfo no_info \<and>
   state_of open_example = SOpen \<and>
   close open_example \<lparr>code = None, reason = replicate 124 65\<rparr>
     = (Some reason_error, open_example) \<and>
   fst (close open_example no_info) = None \<and>
   (\<exists>c. snd (close open_example no_info)
         = issue (op_ws_close (rid open_example) c (Some (reason no_info))) open_example)"
proof -
  have h: "byteLength (replicate 124 65) > 123"
    by (simp add: byteLength_replicate utf8_bytes_def)
  have v: "valid_closeInfo no_info"
    by (simp add: valid_closeInfo_def no_info_def byteLength_def)
  from close_reason_too_long [OF h, of open_example None no_info] h v open_example_state
  show ?thesis by blast
qed

text \<open>
  C3, as the code has it. Once \<open>closed\<close> is settled (the instance is Closed or Errored;
  \<open>connection\<close> is settled then as well), a call of \<open>close\<close> changes nothing and issues
  no op, whatever its argument, so repeating it changes nothing either. In CloseSent a call
  that passes validation issues \<open>op_ws_close\<close> once more.
\<close>

theorem close_settled_noop:
  "((state_of s = SClosed \<or> state_of s = SErrored) \<and> settled (connection s) \<longrightarrow>
      snd (close s info) = s \<and> ops (snd (close s info)) = ops s \<and>
      snd (close (snd (close s info)) info) = snd (close s info)) \<and>
   (state_of s = SCloseSent \<and> fst (close s info) = None \<longrightarrow>
      (\<exists>c. snd (close s info) = issue (op_ws_close (rid s) c (Some (reason info))) s))"
proof -
  have 1: "snd (close s info) = s"
    if "state_of s = SClosed \<or> state_of s = SErrored" "settled (connection s)"
  proof -
    from that(1) have c: "closed s \<noteq> Pending"
      by (auto simp: state_of_def split: deferred.splits if_splits)
    from that(2) have n: "connection s \<noteq> Pending"
      by (simp add: settled_def)
    show ?thesis using c n by (simp add: close_def Let_def)
  qed
  have 2: "\<exists>c. snd (close s info) = issue (op_ws_close (rid s) c (Some (reason info))) s"
    if "state_of s = SCloseSent" "fst (close s info) = None"
  proof -
    from that(1) have c: "closed s = Pending" "connection s \<noteq> Pending"
      by (auto simp: state_of_def split: deferred.splits if_splits)
    with that(2) show ?thesis
      by (auto simp: close_def Let_def split: if_splits)
  qed
  from 1 2 show ?thesis by auto
qed

theorem close_settled_noop_witness:
  "state_of close_failed_example = SErrored \<and> settled (connection close_failed_example) \<and>
   snd (close close_failed_example no_info) = close_failed_example"
proof -
  have e: "state_of close_failed_example = SErrored"
    by (simp add: example_defs state_of_def)
  have c: "settled (connection close_failed_example)"
    by (simp add: example_defs settled_def)
  from close_settled_noop [of close_failed_example no_info] e c show ?thesis by blast
qed

text \<open>
  C3, as stated, fails in CloseSent: the branch of \<open>close\<close> that sends the close tests
  only that \<open>closed\<close> is pending, so a second call on an instance whose close-sent
  timestamp is recorded issues \<open>op_ws_close\<close> again.
\<close>

theorem close_in_CloseSent_sends_again:
  "state_of close_sent_example = SCloseSent \<and>
   ops close_sent_example = [op_ws_create 1, op_ws_close (Some 7) None (Some [])] \<and>
   ops (snd (close close_sent_example no_info))
     = [op_ws_create 1, op_ws_close (Some 7) None (Some []),
        op_ws_close (Some 7) None (Some [])]"
  by (simp add: example_defs state_of_def settled_def)

subsection \<open>The pump, case by case\<close>

text \<open>
  The equations of \<open>switch\<close> and \<open>after_switch\<close> for each kind of event, and an
  induction rule that follows them.
\<close>

lemma switch_msg:
  "kind = 0 \<or> kind = 1 \<Longrightarrow> switch d kind val s rest =
     (case enqueue val s of Inl e \<Rightarrow> (Threw e, s, rest)
      | Inr s1 \<Rightarrow> after_switch d val s1 rest)"
  by (auto simp: switch.simps)

lemma switch_error:
  "switch d 5 val s rest =
     after_switch d val
       (tryClose (rid (controller_error (Error val) (s\<lparr>closed := reject (closed s) (Error val)\<rparr>)))
          (controller_error (Error val) (s\<lparr>closed := reject (closed s) (Error val)\<rparr>))) rest"
  by (simp add: switch.simps Let_def)

lemma switch_ping_suspended:
  "switch d 3 val s [] = (Suspended, issue (op_ws_send (rid s) PongFrame) s, [])"
  by (simp add: switch.simps Let_def)

lemma switch_ping_failed:
  "switch d 3 val s ((t, Failed e) # rest) =
     (Threw e, (issue (op_ws_send (rid s) PongFrame) s)\<lparr>now := t\<rparr>, rest)"
  by (simp add: switch.simps Let_def)

lemma switch_ping:
  "switch d 3 val s ((t, Ok k v) # rest) =
     (case pull (Suc d) ((issue (op_ws_send (rid s) PongFrame) s)\<lparr>now := t\<rparr>) rest of
        (Returned, s2, rest2) \<Rightarrow> after_switch d val s2 rest2
      | r \<Rightarrow> r)"
  by (simp add: switch.simps Let_def)

lemma switch_pong: "switch d 2 val s rest = after_switch d val s rest"
  by (simp add: switch.simps)

lemma switch_closed:
  "switch d 6 val s rest =
     after_switch d val (tryClose (rid s) (s\<lparr>closed := resolve (closed s) (Val Undefined)\<rparr>)) rest"
  by (simp add: switch.simps Let_def)

lemma switch_close:
  "\<not> (kind = 0 \<or> kind = 1) \<Longrightarrow> kind \<noteq> 5 \<Longrightarrow> kind \<noteq> 3 \<Longrightarrow> kind \<noteq> 2 \<Longrightarrow> kind \<noteq> 6 \<Longrightarrow>
   switch d kind val s rest =
     after_switch d val
       (tryClose (rid s) (s\<lparr>closed := resolve (closed s) (CodeReason kind val)\<rparr>)) rest"
  by (simp add: switch.simps Let_def)

lemma after_switch_idle:
  "closeSent s = Pending \<or> closed s \<noteq> Pending \<Longrightarrow> after_switch d val s sched = (Returned, s, sched)"
  by (auto simp: after_switch.simps)

lemma after_switch_within:
  "closeSent s = Resolved t0 \<Longrightarrow> closed s = Pending \<Longrightarrow> now s - t0 \<le> 5000 \<Longrightarrow>
   after_switch d val s sched = pull d s sched"
  by (simp add: after_switch.simps)

lemma after_switch_exceeded:
  "closeSent s = Resolved t0 \<Longrightarrow> closed s = Pending \<Longrightarrow> now s - t0 > 5000 \<Longrightarrow>
   after_switch d val s sched =
     (Returned, tryClose (rid s) (s\<lparr>closed := Resolved (Val val)\<rparr>), sched)"
  by (simp add: after_switch.simps resolve_def Let_def)

lemma after_switch_rejected:
  "closeSent s = Rejected e \<Longrightarrow> closed s = Pending \<Longrightarrow>
   after_switch d val s sched = (Threw e, s, sched)"
  by (simp add: after_switch.simps)

lemma pump_induct [case_names Nil Failed Event MsgThrow Msg Err PingSuspended PingFailed
    PingStop Ping Pong Closed Close Check]:
  fixes P :: "nat \<Rightarrow> wss \<Rightarrow> schedule \<Rightarrow> bool"
    and Q :: "nat \<Rightarrow> nat \<Rightarrow> payload \<Rightarrow> wss \<Rightarrow> schedule \<Rightarrow> bool"
    and R :: "nat \<Rightarrow> payload \<Rightarrow> wss \<Rightarrow> schedule \<Rightarrow> bool"
  assumes Nil: "\<And>d s. P d s []"
    and Failed: "\<And>d s t e rest. P d s ((t, Failed e) # rest)"
    and Event: "\<And>d s t kind val rest.
        Q d kind val (deliver t kind val (enter d s)) rest \<Longrightarrow> P d s ((t, Ok kind val) # rest)"
    and MsgThrow: "\<And>d kind val s rest e.
        kind = 0 \<or> kind = 1 \<Longrightarrow> enqueue val s = Inl e \<Longrightarrow> Q d kind val s rest"
    and Msg: "\<And>d kind val s rest s1.
        kind = 0 \<or> kind = 1 \<Longrightarrow> enqueue val s = Inr s1 \<Longrightarrow> R d val s1 rest \<Longrightarrow>
        Q d kind val s rest"
    and Err: "\<And>d val s rest.
        R d val (tryClose (rid (controller_error (Error val) (s\<lparr>closed := reject (closed s) (Error val)\<rparr>)))
          (controller_error (Error val) (s\<lparr>closed := reject (closed s) (Error val)\<rparr>))) rest \<Longrightarrow>
        Q d 5 val s rest"
    and PingSuspended: "\<And>d val s. Q d 3 val s []"
    and PingFailed: "\<And>d val s t e rest. Q d 3 val s ((t, Failed e) # rest)"
    and PingStop: "\<And>d val s t k v rest out s2 rest2.
        P (Suc d) ((issue (op_ws_send (rid s) PongFrame) s)\<lparr>now := t\<rparr>) rest \<Longrightarrow>
        pull (Suc d) ((issue (op_ws_send (rid s) PongFrame) s)\<lparr>now := t\<rparr>) rest = (out, s2, rest2) \<Longrightarrow>
        out \<noteq> Returned \<Longrightarrow> Q d 3 val s ((t, Ok k v) # rest)"
    and Ping: "\<And>d val s t k v rest s2 rest2.
        P (Suc d) ((issue (op_ws_send (rid s) PongFrame) s)\<lparr>now := t\<rparr>) rest \<Longrightarrow>
        pull (Suc d) ((issue (op_ws_send (rid s) PongFrame) s)\<lparr>now := t\<rparr>) rest = (Returned, s2, rest2) \<Longrightarrow>
        R d val s2 rest2 \<Longrightarrow> Q d 3 val s ((t, Ok k v) # rest)"
    and Pong: "\<And>d val s rest. R d val s rest \<Longrightarrow> Q d 2 val s rest"
    and Closed: "\<And>d val s rest.
        R d val (tryClose (rid s) (s\<lparr>closed := resolve (closed s) (Val Undefined)\<rparr>)) rest \<Longrightarrow>
        Q d 6 val s rest"
    and Close: "\<And>d kind val s rest.
        \<not> (kind = 0 \<or> kind = 1) \<Longrightarrow> kind \<noteq> 5 \<Longrightarrow> kind \<noteq> 3 \<Longrightarrow> kind \<noteq> 2 \<Longrightarrow> kind \<noteq> 6 \<Longrightarrow>
        R d val (tryClose (rid s) (s\<lparr>closed := resolve (closed s) (CodeReason kind val)\<rparr>)) rest \<Longrightarrow>
        Q d kind val s rest"
    and Check: "\<And>d val s sched.
        (\<And>t0. closeSent s = Resolved t0 \<Longrightarrow> closed s = Pending \<Longrightarrow> now s - t0 \<le> 5000 \<Longrightarrow>
           P d s sched) \<Longrightarrow> R d val s sched"
  shows "P d s sched" and "Q d1 k1 v1 s1 sched1" and "R d2 v2 s2 sched2"
proof (induction d s sched and d1 k1 v1 s1 sched1 and d2 v2 s2 sched2
       rule: pull_switch_after_switch.induct)
  case (1 d s)
  show ?case by (rule Nil)
next
  case (2 d s t e rest)
  show ?case by (rule Failed)
next
  case (3 d s t kind val rest)
  then show ?case by (rule Event)
next
  case (4 d kind val s rest)
  consider (msg) "kind = 0 \<or> kind = 1" | (err) "kind = 5" | (ping) "kind = 3"
    | (pong) "kind = 2" | (closed) "kind = 6"
    | (close) "\<not> (kind = 0 \<or> kind = 1)" "kind \<noteq> 5" "kind \<noteq> 3" "kind \<noteq> 2" "kind \<noteq> 6"
    by blast
  then show ?case
  proof cases
    case msg
    show ?thesis
    proof (cases "enqueue val s")
      case (Inl e)
      from msg Inl show ?thesis by (rule MsgThrow)
    next
      case (Inr b)
      from msg Inr "4.IH"(1) [OF msg Inr] show ?thesis by (rule Msg)
    qed
  next
    case err
    have "Q d 5 val s rest"
      using "4.IH"(2) [OF _ err refl refl refl] err by (intro Err) simp
    with err show ?thesis by simp
  next
    case ping
    show ?thesis
    proof (cases rest)
      case Nil
      with ping PingSuspended show ?thesis by simp
    next
      case (Cons a rest')
      obtain t r where a: "a = (t, r)" by (cases a)
      show ?thesis
      proof (cases r)
        case (Failed e)
        with ping Cons a PingFailed show ?thesis by simp
      next
        case (Ok k v)
        let ?s1 = "(issue (op_ws_send (rid s) PongFrame) s)\<lparr>now := t\<rparr>"
        have rest: "rest = (t, Ok k v) # rest'" using Cons a Ok by simp
        have inner: "P (Suc d) ?s1 rest'"
          using "4.IH"(3) [OF _ _ ping refl rest refl refl] ping by simp
        obtain out s2 rest'' where p: "pull (Suc d) ?s1 rest' = (out, s2, rest'')"
          by (cases "pull (Suc d) ?s1 rest'") auto
        show ?thesis
        proof (cases "out = Returned")
          case True
          have "R d val s2 rest''"
            using "4.IH"(4) [OF _ _ ping refl rest refl refl, of Returned "(s2, rest'')" s2 rest'']
              ping p True by simp
          with inner p True have "Q d 3 val s ((t, Ok k v) # rest')" by (intro Ping) simp_all
          with ping rest show ?thesis by simp
        next
          case False
          with inner p have "Q d 3 val s ((t, Ok k v) # rest')" by (intro PingStop) simp_all
          with ping rest show ?thesis by simp
        qed
      qed
    qed
  next
    case pong
    with "4.IH"(5) have "Q d 2 val s rest" by (intro Pong) simp
    with pong show ?thesis by simp
  next
    case closed
    with "4.IH"(6) [OF _ _ _ _ closed refl] have "Q d 6 val s rest" by (intro Closed) simp
    with closed show ?thesis by simp
  next
    case close
    with "4.IH"(7) [OF close refl] show ?thesis by (intro Close) simp_all
  qed
next
  case (5 d val s sched)
  show ?case
  proof (rule Check)
    fix t0 assume "closeSent s = Resolved t0" "closed s = Pending" "now s - t0 \<le> 5000"
    then show "P d s sched" using "5.IH" [of t0] by simp
  qed
qed

subsection \<open>Pings and pongs\<close>

lemma pumped_refl: "pumped 0 [] s s"
  by (simp add: pumped_def)

lemma pumped_same:
  "pongs s1 = pongs s \<Longrightarrow> inbound s1 = inbound s \<Longrightarrow> enqueued s1 = enqueued s \<Longrightarrow> pumped 0 [] s s1"
  by (simp add: pumped_def pings_def)

lemma pumped_trans:
  assumes "pumped a p s s1" and "pumped 0 [] s1 s2"
  shows "pumped a p s s2"
proof -
  from assms(1) obtain evs items where 1: "pongs s1 + pings s = pongs s + pings s1 + a"
    "inbound s1 = inbound s @ evs" "enqueued s1 = enqueued s @ items"
    "subseq items (p @ messages evs)"
    by (auto simp: pumped_def)
  from assms(2) obtain evs' items' where 2: "pongs s2 + pings s1 = pongs s1 + pings s2"
    "inbound s2 = inbound s1 @ evs'" "enqueued s2 = enqueued s1 @ items'"
    "subseq items' (messages evs')"
    by (auto simp: pumped_def)
  have "subseq (items @ items') ((p @ messages evs) @ messages evs')"
    using 1(4) 2(4) by (rule list_emb_append_mono)
  then have "subseq (items @ items') (p @ messages (evs @ evs'))"
    by (simp add: messages_def)
  moreover have "inbound s2 = inbound s @ (evs @ evs')" using 1(2) 2(2) by simp
  moreover have "enqueued s2 = enqueued s @ (items @ items')" using 1(3) 2(3) by simp
  moreover have "pongs s2 + pings s = pongs s + pings s2 + a" using 1(1) 2(1) by arith
  ultimately show ?thesis unfolding pumped_def by blast
qed

lemma pongs_simps [simp]:
  "pongs (issue (op_ws_next_event r) s) = pongs s"
  "pongs (issue (op_ws_send r PongFrame) s) = Suc (pongs s)"
  "pongs (tryClose r' s) = pongs s"
  "pongs (controller_error e s) = pongs s"
  "pongs (s\<lparr>now := t\<rparr>) = pongs s"
  "pongs (s\<lparr>closed := c\<rparr>) = pongs s"
  "pongs (s\<lparr>frames := n\<rparr>) = pongs s"
  "pongs (s\<lparr>inbound := i\<rparr>) = pongs s"
  "pongs (s\<lparr>enqueued := q\<rparr>) = pongs s"
  by (simp_all add: pongs_def issue_def tryClose_def controller_error_def is_pong_send_def)

lemma log_simps [simp]:
  "inbound (issue x s) = inbound s" "enqueued (issue x s) = enqueued s"
  "inbound (tryClose r s) = inbound s" "enqueued (tryClose r s) = enqueued s"
  "inbound (controller_error e s) = inbound s" "enqueued (controller_error e s) = enqueued s"
  by (simp_all add: issue_def tryClose_def controller_error_def)

lemma pumped_enter: "pumped 0 [] s (enter d s)"
  by (rule pumped_same) (simp_all add: enter_def)

lemma pumped_deliver:
  assumes "pumped (if kind = 3 then 1 else 0) (if kind = 0 \<or> kind = 1 then [val] else [])
             (deliver t kind val (enter d s)) s'"
  shows "pumped 0 [] s s'"
proof -
  let ?s1 = "deliver t kind val (enter d s)"
  let ?owed = "if kind = 3 then 1 else 0 :: nat"
  let ?pend = "if kind = 0 \<or> kind = 1 then [val] else []"
  from assms obtain evs items where 1: "pongs s' + pings ?s1 = pongs ?s1 + pings s' + ?owed"
    "inbound s' = inbound ?s1 @ evs" "enqueued s' = enqueued ?s1 @ items"
    "subseq items (?pend @ messages evs)"
    unfolding pumped_def by blast
  have a: "pings ?s1 = pings s + ?owed" by (simp add: pings_def deliver_def enter_def)
  have b: "pongs ?s1 = pongs s" by (simp add: deliver_def enter_def)
  have c: "inbound ?s1 = inbound s @ [(kind, val)]" by (simp add: deliver_def enter_def)
  have d: "enqueued ?s1 = enqueued s" by (simp add: deliver_def enter_def)
  have e: "?pend @ messages evs = messages ((kind, val) # evs)" by (simp add: messages_def)
  have "pongs s' + pings s = pongs s + pings s'" using 1(1) a b by arith
  moreover have "inbound s' = inbound s @ ((kind, val) # evs)" using 1(2) c by simp
  moreover have "enqueued s' = enqueued s @ items" using 1(3) d by simp
  moreover have "subseq items (messages ((kind, val) # evs))" using 1(4) e by simp
  ultimately show ?thesis unfolding pumped_def by (metis add.right_neutral append_Nil)
qed

lemma pumped_enqueue:
  assumes "enqueue val s = Inr s1" and "pumped 0 [] s1 s'"
  shows "pumped 0 [val] s s'"
proof -
  from assms(1) have s1: "s1 = s\<lparr>enqueued := enqueued s @ [val]\<rparr>"
    by (simp add: enqueue_def split: if_splits)
  from assms(2) obtain evs items where 1: "pongs s' + pings s1 = pongs s1 + pings s'"
    "inbound s' = inbound s1 @ evs" "enqueued s' = enqueued s1 @ items"
    "subseq items (messages evs)"
    unfolding pumped_def by auto
  have "subseq ([val] @ items) ([val] @ messages evs)"
    using 1(4) by (intro list_emb_append_mono) simp_all
  moreover have "enqueued s' = enqueued s @ ([val] @ items)" using 1(3) s1 by simp
  moreover have "inbound s' = inbound s @ evs" using 1(2) s1 by simp
  moreover have "pongs s' + pings s = pongs s + pings s' + 0"
    using 1(1) s1 by (simp add: pings_def)
  ultimately show ?thesis unfolding pumped_def by blast
qed

lemma pumped_pong_sent: "pumped 1 [] s ((issue (op_ws_send (rid s) PongFrame) s)\<lparr>now := t\<rparr>)"
  by (simp add: pumped_def pings_def)

lemma pumped_pump:
  "pumped 0 [] s (fst (snd (pull d s sched)))"
  "pumped (if k1 = 3 then 1 else 0) (if k1 = 0 \<or> k1 = 1 then [v1] else []) s1
     (fst (snd (switch d1 k1 v1 s1 sched1)))"
  "pumped 0 [] s2 (fst (snd (after_switch d2 v2 s2 sched2)))"
proof (induction d s sched and d1 k1 v1 s1 sched1 and d2 v2 s2 sched2 rule: pump_induct)
  case (Nil d s)
  show ?case by (simp add: pumped_enter)
next
  case (Failed d s t e rest)
  show ?case by (rule pumped_same) (simp_all add: enter_def)
next
  case (Event d s t kind val rest)
  then show ?case by (simp add: pumped_deliver)
next
  case (MsgThrow d kind val s rest e)
  then show ?case by (auto simp: switch_msg pumped_def)
next
  case (Msg d kind val s rest s1)
  then show ?case by (auto simp: switch_msg pumped_enqueue)
next
  case (Err d val s rest)
  have "pumped 0 [] s (tryClose (rid (controller_error (Error val) (s\<lparr>closed := reject (closed s) (Error val)\<rparr>)))
          (controller_error (Error val) (s\<lparr>closed := reject (closed s) (Error val)\<rparr>)))"
    by (rule pumped_same) simp_all
  from pumped_trans [OF this Err] show ?case by (simp add: switch_error)
next
  case (PingSuspended d val s)
  show ?case by (simp add: switch_ping_suspended pumped_def pings_def)
next
  case (PingFailed d val s t e rest)
  show ?case using pumped_pong_sent [of s t] by (simp add: switch_ping_failed)
next
  case (PingStop d val s t k v rest out s2 rest2)
  from PingStop.IH PingStop.hyps(1) have "pumped 0 [] ((issue (op_ws_send (rid s) PongFrame) s)\<lparr>now := t\<rparr>) s2"
    by simp
  from pumped_trans [OF pumped_pong_sent this] PingStop.hyps show ?case
    by (cases out) (simp_all add: switch_ping)
next
  case (Ping d val s t k v rest s2 rest2)
  from Ping.IH(1) Ping.hyps have "pumped 0 [] ((issue (op_ws_send (rid s) PongFrame) s)\<lparr>now := t\<rparr>) s2"
    by simp
  from pumped_trans [OF pumped_trans [OF pumped_pong_sent this]] Ping.IH(2) Ping.hyps show ?case
    by (simp add: switch_ping)
next
  case (Pong d val s rest)
  then show ?case by (simp add: switch_pong)
next
  case (Closed d val s rest)
  have "pumped 0 [] s (tryClose (rid s) (s\<lparr>closed := resolve (closed s) (Val Undefined)\<rparr>))"
    by (rule pumped_same) simp_all
  from pumped_trans [OF this Closed] show ?case by (simp add: switch_closed)
next
  case (Close d kind val s rest)
  have "pumped 0 [] s (tryClose (rid s) (s\<lparr>closed := resolve (closed s) (CodeReason kind val)\<rparr>))"
    by (rule pumped_same) simp_all
  from pumped_trans [OF this Close.IH] Close.hyps show ?case by (simp add: switch_close)
next
  case (Check d val s sched)
  show ?case
  proof (cases "closeSent s = Pending \<or> closed s \<noteq> Pending")
    case True
    then show ?thesis by (simp add: after_switch_idle pumped_refl)
  next
    case False
    then have c: "closed s = Pending" by simp
    show ?thesis
    proof (cases "closeSent s")
      case Pending
      with False show ?thesis by simp
    next
      case (Rejected e)
      with c show ?thesis by (simp add: after_switch_rejected pumped_refl)
    next
      case (Resolved t0)
      show ?thesis
      proof (cases "now s - t0 \<le> 5000")
        case True
        with Resolved c Check show ?thesis by (simp add: after_switch_within)
      next
        case False
        have "pumped 0 [] s (tryClose (rid s) (s\<lparr>closed := Resolved (Val val)\<rparr>))"
          by (rule pumped_same) simp_all
        with False Resolved c show ?thesis by (simp add: after_switch_exceeded)
      qed
    qed
  qed
qed

lemma pull_logs_event:
  "\<exists>evs. inbound (fst (snd (pull d s ((t, Ok kind val) # rest)))) = inbound s @ (kind, val) # evs"
proof -
  let ?s1 = "deliver t kind val (enter d s)"
  from pumped_pump(2) [of kind val ?s1 d rest]
  obtain evs where "inbound (fst (snd (switch d kind val ?s1 rest))) = inbound ?s1 @ evs"
    unfolding pumped_def by blast
  moreover have "inbound ?s1 = inbound s @ [(kind, val)]"
    by (simp add: deliver_def enter_def)
  ultimately show ?thesis by simp
qed

lemma ops_issue: "ops (issue x s) = ops s @ [x]"
  by (simp add: issue_def)

lemma drain_sends_nothing:
  "pongs (fst (snd (drain r s sched))) = pongs s \<and>
   enqueued (fst (snd (drain r s sched))) = enqueued s \<and>
   ops (fst (snd (drain r s sched))) = ops s @ replicate (length (ops (fst (snd (drain r s sched)))) - length (ops s)) (op_ws_next_event (Some r))"
proof (induction r s sched rule: drain.induct)
  case (1 r s)
  show ?case by (simp add: ops_issue)
next
  case (2 r s t e rest)
  show ?case by (simp add: ops_issue)
next
  case (3 r s t kind val rest)
  let ?s1 = "deliver t kind val (issue (op_ws_next_event (Some r)) s)"
  have a: "pongs ?s1 = pongs s" "enqueued ?s1 = enqueued s"
    "ops ?s1 = ops s @ [op_ws_next_event (Some r)]"
    by (simp_all add: deliver_def ops_issue)
  show ?case
  proof (cases "kind > 6")
    case True
    with a show ?thesis by (simp add: Let_def)
  next
    case False
    let ?s' = "fst (snd (drain r ?s1 rest))"
    from False "3.IH" [OF refl] have ih: "pongs ?s' = pongs ?s1" "enqueued ?s' = enqueued ?s1"
      "ops ?s' = ops ?s1 @ replicate (length (ops ?s') - length (ops ?s1)) (op_ws_next_event (Some r))"
      by simp_all
    from ih(3) a(3) have l: "length (ops ?s') \<ge> Suc (length (ops s))"
      by (metis length_append length_append_singleton le_add1)
    have "ops ?s' = ops s @ op_ws_next_event (Some r) #
        replicate (length (ops ?s') - Suc (length (ops s))) (op_ws_next_event (Some r))"
      using ih(3) a(3) by simp
    also have "op_ws_next_event (Some r) #
        replicate (length (ops ?s') - Suc (length (ops s))) (op_ws_next_event (Some r))
      = replicate (length (ops ?s') - length (ops s)) (op_ws_next_event (Some r))"
      using l by (metis Suc_diff_Suc Suc_le_lessD replicate_Suc)
    finally show ?thesis using False ih a by (simp add: Let_def)
  qed
qed

lemma drain_logs_event:
  "\<exists>evs. inbound (fst (snd (drain r s ((t, Ok kind val) # rest)))) = inbound s @ (kind, val) # evs"
proof -
  have g: "\<exists>evs. inbound (fst (snd (drain r s sched))) = inbound s @ evs" for s sched
    by (induction r s sched rule: drain.induct)
       (auto simp: Let_def issue_def deliver_def)
  let ?s1 = "deliver t kind val (issue (op_ws_next_event (Some r)) s)"
  have i: "inbound ?s1 = inbound s @ [(kind, val)]" by (simp add: deliver_def issue_def)
  show ?thesis
  proof (cases "kind > 6")
    case True
    with i show ?thesis by (simp add: Let_def)
  next
    case False
    from g [of ?s1 rest] obtain evs where "inbound (fst (snd (drain r ?s1 rest))) = inbound ?s1 @ evs"
      by blast
    with False i show ?thesis by (simp add: Let_def)
  qed
qed

text \<open>
  C7, as the code has it. The event pump, \<open>pull\<close>, logs every event it reads, sends
  exactly as many Pong frames as it reads Ping events, from any state and for any replies
  of the transport, and enqueues only payloads of Text and Binary events, in their order:
  a Ping that the pump reads is answered by one Pong and is never an item of the readable
  stream. The loop that reads events after an early close reads them as well, but sends
  no Pong, issues no op other than \<open>op_ws_next_event\<close>, and enqueues nothing.
\<close>

theorem ping_pong_reply:
  "(let s' = fst (snd (pull d s sched)) in
      pongs s' + pings s = pongs s + pings s' \<and>
      (\<exists>evs items. inbound s' = inbound s @ evs \<and> enqueued s' = enqueued s @ items \<and>
         subseq items (messages evs))) \<and>
   (let s' = fst (snd (pull d s ((t, Ok kind val) # rest))) in
      \<exists>evs. inbound s' = inbound s @ (kind, val) # evs) \<and>
   (let s' = fst (snd (drain r s ((t, Ok kind val) # rest))) in
      (\<exists>evs. inbound s' = inbound s @ (kind, val) # evs) \<and>
      pongs s' = pongs s \<and> enqueued s' = enqueued s \<and>
      ops s' = ops s @ replicate (length (ops s') - length (ops s)) (op_ws_next_event (Some r)))"
  using pumped_pump(1) [of s d sched] pull_logs_event [of d s t kind val rest]
    drain_logs_event [of r s t kind val rest]
    drain_sends_nothing [of r s "(t, Ok kind val) # rest"]
  by (simp add: pumped_def Let_def del: pull.simps drain.simps)

theorem ping_pong_reply_witness:
  "inbound (fst (snd (pull 0 open_example
      [(1, Ok 3 Undefined), (2, Ok 0 Undefined), (3, Ok 1 (Binary [7]))])))
     = [(3, Undefined), (1, Binary [7])] \<and>
   pings (fst (snd (pull 0 open_example
      [(1, Ok 3 Undefined), (2, Ok 0 Undefined), (3, Ok 1 (Binary [7]))]))) = 1 \<and>
   pongs (fst (snd (pull 0 open_example
      [(1, Ok 3 Undefined), (2, Ok 0 Undefined), (3, Ok 1 (Binary [7]))]))) = 1 \<and>
   enqueued (fst (snd (pull 0 open_example
      [(1, Ok 3 Undefined), (2, Ok 0 Undefined), (3, Ok 1 (Binary [7]))]))) = [Binary [7]]"
proof -
  let ?sch = "[(1, Ok 3 Undefined), (2, Ok 0 Undefined), (3, Ok 1 (Binary [7]))]"
  let ?s' = "fst (snd (pull 0 open_example ?sch))"
  have o: "pongs open_example = 0" "pings open_example = 0"
    by (simp_all add: example_defs pongs_def pings_def is_pong_send_def)
  have i: "inbound ?s' = [(3, Undefined), (1, Binary [7])]"
    and q: "enqueued ?s' = [Binary [7]]"
    by (simp_all add: example_defs switch_ping switch_msg after_switch_idle enqueue_def
        deliver_def enter_def)
  then have p: "pings ?s' = 1" by (simp add: pings_def)
  from ping_pong_reply [of 0 open_example ?sch] o p have "pongs ?s' = 1"
    by (simp add: Let_def del: pull.simps)
  with i p q show ?thesis by blast
qed

text \<open>
  C7, as stated, fails for the Pings that the loop after an early close reads: it reads a
  Ping and then a close, and no Pong was sent.
\<close>

theorem drain_ignores_ping:
  "inbound (early_close_resolved 7 [(1, Ok 3 Undefined), (2, Ok 1000 (Text []))]
      (early_closed None 1 no_info create7)) = [(3, Undefined), (1000, Text [])] \<and>
   pings (early_close_resolved 7 [(1, Ok 3 Undefined), (2, Ok 1000 (Text []))]
      (early_closed None 1 no_info create7)) = 1 \<and>
   pongs (early_close_resolved 7 [(1, Ok 3 Undefined), (2, Ok 1000 (Text []))]
      (early_closed None 1 no_info create7)) = 0 \<and>
   ops (early_close_resolved 7 [(1, Ok 3 Undefined), (2, Ok 1000 (Text []))]
      (early_closed None 1 no_info create7))
     = [op_ws_create 1, op_ws_close (Some 7) None None,
        op_ws_next_event (Some 7), op_ws_next_event (Some 7)]"
  by (simp add: early_closed_def early_close_resolved_def reject_both_def example_defs
      deliver_def pings_def pongs_def is_pong_send_def)

subsection \<open>Recursion on Ping, the timeout, and Pong\<close>

lemma frames_enter [simp]: "frames (enter d s) = max (frames s) (Suc d)"
  by (simp add: enter_def issue_def)

lemma ping_flood_Suc:
  "ping_flood (Suc n) = (0, Ok 3 Undefined) # (0, Ok 0 Undefined) # ping_flood n"
  by (simp add: ping_flood_def)

lemma pull_ping_flood:
  "fst (pull d s (ping_flood n)) = Suspended \<and>
   frames (fst (snd (pull d s (ping_flood n)))) = max (frames s) (Suc (d + n))"
proof (induction n arbitrary: d s)
  case 0
  show ?case by (simp add: ping_flood_def)
next
  case (Suc n)
  let ?s1 = "(issue (op_ws_send (rid (deliver 0 3 Undefined (enter d s))) PongFrame)
               (deliver 0 3 Undefined (enter d s)))\<lparr>now := 0\<rparr>"
  obtain out s2 rest where p: "pull (Suc d) ?s1 (ping_flood n) = (out, s2, rest)"
    by (cases "pull (Suc d) ?s1 (ping_flood n)") auto
  from Suc [of "Suc d" ?s1] p have out: "out = Suspended"
    and fr: "frames s2 = max (frames ?s1) (Suc (Suc d + n))" by simp_all
  have "pull d s (ping_flood (Suc n)) = (out, s2, rest)"
    using p out by (simp add: ping_flood_Suc switch_ping)
  moreover have "frames ?s1 = max (frames s) (Suc d)"
    by (simp add: deliver_def issue_def)
  ultimately show ?case using out fr by simp
qed

text \<open>
  C9, as the code has it. A Ping is handled by \<open>await pull(controller)\<close>, a call of
  \<open>pull\<close> inside \<open>pull\<close>: while it reads \<open>n\<close> Pings in a row, \<open>n + 1\<close>
  activations of \<open>pull\<close> are alive, the outer ones suspended in that await.
\<close>

theorem ping_recursion_depth:
  "frames (fst (snd (pull d s (ping_flood n)))) = max (frames s) (Suc (d + n))"
  using pull_ping_flood [of d s n] by simp

text \<open>
  C9, as stated, fails: no bound holds for the number of activations of one invocation
  under arbitrarily long sequences of Pings.
\<close>

theorem ping_depth_unbounded:
  "\<not> (\<exists>B. \<forall>n. frames (fst (snd (pull 0 open_example (ping_flood n)))) \<le> B)"
proof
  assume "\<exists>B. \<forall>n. frames (fst (snd (pull 0 open_example (ping_flood n)))) \<le> B"
  then obtain B where "\<forall>n. frames (fst (snd (pull 0 open_example (ping_flood n)))) \<le> B" ..
  then have "frames (fst (snd (pull 0 open_example (ping_flood B)))) \<le> B" ..
  moreover have "frames (fst (snd (pull 0 open_example (ping_flood B)))) \<ge> Suc B"
    using pull_ping_flood [of 0 open_example B] by simp
  ultimately show False by simp
qed


lemma close_sent_example_slots:
  "closeSent close_sent_example = Resolved 10" "closed close_sent_example = Pending"
  "rid close_sent_example = Some 7" "released close_sent_example = []"
  by (simp_all add: example_defs)

lemma deliver_slots [simp]:
  "closeSent (deliver t k v s) = closeSent s" "closed (deliver t k v s) = closed s"
  "rid (deliver t k v s) = rid s" "released (deliver t k v s) = released s"
  "now (deliver t k v s) = t" "enqueued (deliver t k v s) = enqueued s"
  by (simp_all add: deliver_def)

lemma enter_slots [simp]:
  "closeSent (enter d s) = closeSent s" "closed (enter d s) = closed s"
  "rid (enter d s) = rid s" "released (enter d s) = released s"
  "enqueued (enter d s) = enqueued s"
  by (simp_all add: enter_def issue_def)


text \<open>
  C6, as the code has it. A Pong event enqueues nothing, and \<open>pull\<close> goes straight to
  the check behind the switch. It requests the next event within the same invocation only
  if a local close was sent, \<open>closed\<close> is pending and at most 5000 ms have passed since
  the close-sent timestamp. If no close was sent, or \<open>closed\<close> is settled, the
  invocation returns without requesting another event; beyond 5000 ms it resolves
  \<open>closed\<close> and returns.
\<close>

theorem pong_event:
  "enqueued (deliver t 2 val (enter d s)) = enqueued s \<and>
   pull d s ((t, Ok 2 val) # rest) = after_switch d val (deliver t 2 val (enter d s)) rest \<and>
   (closeSent s = Pending \<or> closed s \<noteq> Pending \<longrightarrow>
      pull d s ((t, Ok 2 val) # rest) = (Returned, deliver t 2 val (enter d s), rest)) \<and>
   (closeSent s = Resolved t0 \<and> closed s = Pending \<and> t - t0 \<le> 5000 \<longrightarrow>
      pull d s ((t, Ok 2 val) # rest) = pull d (deliver t 2 val (enter d s)) rest) \<and>
   (closeSent s = Resolved t0 \<and> closed s = Pending \<and> t - t0 > 5000 \<longrightarrow>
      pull d s ((t, Ok 2 val) # rest) =
        (Returned, tryClose (rid s) ((deliver t 2 val (enter d s))\<lparr>closed := Resolved (Val val)\<rparr>),
         rest))"
  by (auto simp: switch_pong after_switch_idle after_switch_within after_switch_exceeded)

theorem pong_event_witness:
  "closeSent open_example = Pending \<and>
   pull 0 open_example [(1, Ok 2 Undefined)]
     = (Returned, deliver 1 2 Undefined (enter 0 open_example), []) \<and>
   closeSent close_sent_example = Resolved 10 \<and> closed close_sent_example = Pending \<and>
   pull 0 close_sent_example [(20, Ok 2 Undefined)]
     = (Suspended, enter 0 (deliver 20 2 Undefined (enter 0 close_sent_example)), [])"
proof -
  have o: "closeSent open_example = Pending" by (simp add: example_defs)
  have t: "(20::int) - 10 \<le> 5000" by simp
  note c = close_sent_example_slots(1,2)
  from pong_event [of 1 Undefined 0 open_example "[]" 0] o
  have 1: "pull 0 open_example [(1, Ok 2 Undefined)]
             = (Returned, deliver 1 2 Undefined (enter 0 open_example), [])" by blast
  from pong_event [of 20 Undefined 0 close_sent_example "[]" 10] c t
  have "pull 0 close_sent_example [(20, Ok 2 Undefined)]
          = pull 0 (deliver 20 2 Undefined (enter 0 close_sent_example)) []" by blast
  then have 2: "pull 0 close_sent_example [(20, Ok 2 Undefined)]
          = (Suspended, enter 0 (deliver 20 2 Undefined (enter 0 close_sent_example)), [])"
    by (simp only: pull.simps)
  from o 1 c 2 show ?thesis by blast
qed

text \<open>
  C6, as stated, fails on an open instance: after a Pong the invocation returns, and the
  Text event that follows is left for a later invocation.
\<close>

theorem pong_returns_when_open:
  "pull 0 open_example [(1, Ok 2 Undefined), (2, Ok 0 (Text [104, 105]))]
     = (Returned, deliver 1 2 Undefined (enter 0 open_example), [(2, Ok 0 (Text [104, 105]))])"
proof -
  have "closeSent (deliver 1 2 Undefined (enter 0 open_example)) = Pending"
    by (simp add: example_defs)
  then show ?thesis by (simp add: switch_pong after_switch_idle)
qed

subsection \<open>The futures settle once\<close>

lemma keeps_refl [simp]: "keeps d d"
  by (simp add: keeps_def)

lemma keeps_trans: "keeps a b \<Longrightarrow> keeps b c \<Longrightarrow> keeps a c"
  by (auto simp: keeps_def)

lemma keeps_resolve [simp]: "keeps d (resolve d v)"
  by (cases d) (simp_all add: keeps_def resolve_def)

lemma keeps_reject [simp]: "keeps d (reject d e)"
  by (cases d) (simp_all add: keeps_def reject_def)

lemma keeps_settled: "keeps d d' \<Longrightarrow> settled d \<Longrightarrow> d' = d"
  by (simp add: keeps_def settled_def)

lemma settled_kept: "keeps d d' \<Longrightarrow> settled d \<Longrightarrow> settled d'"
  by (auto simp: keeps_def settled_def)

lemma settled_resolve [simp]: "settled (resolve d v)"
  by (cases d) (simp_all add: settled_def resolve_def)

lemma settled_reject [simp]: "settled (reject d e)"
  by (cases d) (simp_all add: settled_def reject_def)

text \<open>The futures across the primitive steps.\<close>

lemma futures_simps [simp]:
  "closed (issue x s) = closed s" "connection (issue x s) = connection s"
  "closed (tryClose r s) = closed s" "connection (tryClose r s) = connection s"
  "closed (controller_error e s) = closed s" "connection (controller_error e s) = connection s"
  "closed (enter d s) = closed s" "connection (enter d s) = connection s"
  "closed (deliver t k v s) = closed s" "connection (deliver t k v s) = connection s"
  by (simp_all add: issue_def tryClose_def controller_error_def enter_def deliver_def)

lemma closed_reject_both [simp]: "closed (reject_both e s) = reject (closed s) e"
  and connection_reject_both [simp]: "connection (reject_both e s) = reject (connection s) e"
  by (simp_all add: reject_both_def Let_def)

lemma futures_close [simp]:
  "closed (snd (close s info)) = closed s" "connection (snd (close s info)) = connection s"
  by (simp_all add: close_def Let_def)

lemma futures_close_eq:
  "close s info = (e, s1) \<Longrightarrow> closed s1 = closed s \<and> connection s1 = connection s"
  using futures_close [of s info] by simp

lemma futures_stream_close [simp]:
  "closed (stream_close r s) = closed s" "connection (stream_close r s) = connection s"
  by (auto simp: stream_close_def Let_def split: prod.splits option.splits
      dest: futures_close_eq)

lemma futures_enqueue:
  "enqueue v s = Inr s1 \<Longrightarrow> closed s1 = closed s \<and> connection s1 = connection s"
  by (auto simp: enqueue_def split: if_splits)

lemma futures_streams [simp]:
  "closed (sink_close_finish s) = closed s" "connection (sink_close_finish s) = connection s"
  "closed (writable_error s) = closed s" "connection (writable_error s) = connection s"
  "closed (writable_abort r s) = closed s" "connection (writable_abort r s) = connection s"
  "closed (readable_cancel r s) = closed s" "connection (readable_cancel r s) = connection s"
  "closed (writableStreamClose s) = closed s" "connection (writableStreamClose s) = connection s"
  by (simp_all add: sink_close_finish_def writable_error_def writable_abort_def
      readable_cancel_def writableStreamClose_def split: deferred.splits)

lemma futures_closed_then [simp]:
  "closed (closed_then s) = closed s" "connection (closed_then s) = connection s"
  by (auto simp: closed_then_def controller_close_def split: deferred.splits)

lemma step_Pull:
  "closed (step s (Pull sched)) = closed (fst (snd (pull 0 s sched)))"
  "connection (step s (Pull sched)) = connection (fst (snd (pull 0 s sched)))"
proof -
  obtain out s1 rest where p: "pull 0 s sched = (out, s1, rest)"
    by (cases "pull 0 s sched") auto
  show "closed (step s (Pull sched)) = closed (fst (snd (pull 0 s sched)))"
    and "connection (step s (Pull sched)) = connection (fst (snd (pull 0 s sched)))"
    using p by (cases out; simp)+
qed

lemma futures_drain:
  "closed (fst (snd (drain r s sched))) = closed s \<and>
   connection (fst (snd (drain r s sched))) = connection s"
  by (induction r s sched rule: drain.induct) (simp_all add: Let_def)

lemma kept_refl [simp]: "kept s s"
  by (simp add: kept_def)

lemma kept_trans: "kept a b \<Longrightarrow> kept b c \<Longrightarrow> kept a c"
  by (auto simp: kept_def intro: keeps_trans)

lemma kept_same: "closed s' = closed s \<Longrightarrow> connection s' = connection s \<Longrightarrow> kept s s'"
  by (simp add: kept_def)

lemma kept_pump:
  "kept s (fst (snd (pull d s sched)))"
  "kept s1 (fst (snd (switch d1 k1 v1 s1 sched1)))"
  "kept s2 (fst (snd (after_switch d2 v2 s2 sched2)))"
proof (induction d s sched and d1 k1 v1 s1 sched1 and d2 v2 s2 sched2 rule: pump_induct)
  case (Nil d s)
  show ?case by (simp add: kept_def)
next
  case (Failed d s t e rest)
  show ?case by (simp add: kept_def)
next
  case (Event d s t kind val rest)
  have "kept s (deliver t kind val (enter d s))" by (simp add: kept_def)
  from kept_trans [OF this Event] show ?case by simp
next
  case (MsgThrow d kind val s rest e)
  then show ?case by (auto simp: switch_msg)
next
  case (Msg d kind val s rest s1)
  from Msg.hyps(2) have "kept s s1" by (simp add: kept_def futures_enqueue)
  from kept_trans [OF this Msg.IH] Msg.hyps show ?case by (auto simp: switch_msg)
next
  case (Err d val s rest)
  have "kept s (tryClose (rid (controller_error (Error val) (s\<lparr>closed := reject (closed s) (Error val)\<rparr>)))
          (controller_error (Error val) (s\<lparr>closed := reject (closed s) (Error val)\<rparr>)))"
    by (simp add: kept_def)
  from kept_trans [OF this Err] show ?case by (simp add: switch_error)
next
  case (PingSuspended d val s)
  show ?case by (simp add: switch_ping_suspended kept_def)
next
  case (PingFailed d val s t e rest)
  show ?case by (simp add: switch_ping_failed kept_def)
next
  case (PingStop d val s t k v rest out s2 rest2)
  have "kept s ((issue (op_ws_send (rid s) PongFrame) s)\<lparr>now := t\<rparr>)" by (simp add: kept_def)
  from kept_trans [OF this PingStop.IH] PingStop.hyps show ?case
    by (cases out) (simp_all add: switch_ping)
next
  case (Ping d val s t k v rest s2 rest2)
  have "kept s ((issue (op_ws_send (rid s) PongFrame) s)\<lparr>now := t\<rparr>)" by (simp add: kept_def)
  from kept_trans [OF this Ping.IH(1)] Ping.hyps have "kept s s2" by simp
  from kept_trans [OF this Ping.IH(2)] Ping.hyps show ?case by (simp add: switch_ping)
next
  case (Pong d val s rest)
  then show ?case by (simp add: switch_pong)
next
  case (Closed d val s rest)
  have "kept s (tryClose (rid s) (s\<lparr>closed := resolve (closed s) (Val Undefined)\<rparr>))"
    by (simp add: kept_def)
  from kept_trans [OF this Closed] show ?case by (simp add: switch_closed)
next
  case (Close d kind val s rest)
  have "kept s (tryClose (rid s) (s\<lparr>closed := resolve (closed s) (CodeReason kind val)\<rparr>))"
    by (simp add: kept_def)
  from kept_trans [OF this Close.IH] Close.hyps show ?case by (simp add: switch_close)
next
  case (Check d val s sched)
  show ?case
  proof (cases "closeSent s = Pending \<or> closed s \<noteq> Pending")
    case True
    then show ?thesis by (simp add: after_switch_idle)
  next
    case False
    then have c: "closed s = Pending" by simp
    show ?thesis
    proof (cases "closeSent s")
      case Pending
      with False show ?thesis by simp
    next
      case (Rejected e)
      with c show ?thesis by (simp add: after_switch_rejected)
    next
      case (Resolved t0)
      show ?thesis
      proof (cases "now s - t0 \<le> 5000")
        case True
        with Resolved c Check show ?thesis by (simp add: after_switch_within)
      next
        case False
        with Resolved c show ?thesis by (simp add: after_switch_exceeded kept_def keeps_def)
      qed
    qed
  qed
qed

lemma keeps_step:
  "keeps (closed s) (closed (step s a)) \<and> keeps (connection s) (connection (step s a))"
proof (cases a)
  case (Pull sched)
  obtain out s1 rest where p: "pull 0 s sched = (out, s1, rest)"
    by (cases "pull 0 s sched") auto
  with kept_pump(1) [of s 0 sched] have "kept s s1" by simp
  with Pull p show ?thesis by (cases out) (simp_all add: kept_def)
next
  case (Write c)
  obtain e s1 where w: "sink_write c s = (e, s1)" by (cases "sink_write c s")
  then have "closed s1 = closed s" "connection s1 = connection s"
    by (auto simp: sink_write_def split: chunk.splits)
  with Write w show ?thesis by (cases e) simp_all
next
  case (Resume val sched)
  with kept_pump(3) [of s 0 val sched] show ?thesis by (simp add: kept_def)
next
  case (CloseSentThen sched)
  with kept_pump(1) [of s 0 sched] show ?thesis
    by (auto simp: kept_def keeps_def closeSent_then_def split: deferred.splits)
next
  case (EarlyCloseResolved r sched)
  obtain out s1 rest where d: "drain r s sched = (out, s1, rest)"
    by (cases "drain r s sched") auto
  with futures_drain [of r s sched] have "closed s1 = closed s" "connection s1 = connection s"
    by simp_all
  with EarlyCloseResolved d show ?thesis
    by (cases out) (simp_all add: early_close_resolved_def)
qed (simp_all add: abort_def create_resolved_def create_rejected_def early_close_rejected_def
      close_sent_def close_failed_def Let_def split: option.splits)

lemma keeps_run:
  "keeps (closed s) (closed (run s acts)) \<and> keeps (connection s) (connection (run s acts))"
proof (induction acts arbitrary: s)
  case Nil
  show ?case by (simp add: run_def)
next
  case (Cons a acts)
  have "run s (a # acts) = run (step s a) acts" by (simp add: run_def)
  with Cons [of "step s a"] keeps_step [of s a] show ?case
    by (auto intro: keeps_trans)
qed

lemma settled_simps [simp]:
  "\<not> settled Pending" "settled (Resolved v)" "settled (Rejected e)"
  by (simp_all add: settled_def)

lemma kept_settled: "kept s s' \<Longrightarrow> settled (closed s) \<Longrightarrow> settled (closed s')"
  by (auto simp: kept_def keeps_def settled_def)

lemma switch_settles:
  assumes "kind = 5 \<or> kind = 6 \<or> kind = 4 \<or> kind > 6"
  shows "settled (closed (fst (snd (switch d kind val s rest))))"
proof -
  consider (err) "kind = 5" | (closed) "kind = 6"
    | (close) "\<not> (kind = 0 \<or> kind = 1)" "kind \<noteq> 5" "kind \<noteq> 3" "kind \<noteq> 2" "kind \<noteq> 6"
    using assms by fastforce
  then show ?thesis
  proof cases
    case err
    let ?s1 = "tryClose (rid (controller_error (Error val) (s\<lparr>closed := reject (closed s) (Error val)\<rparr>)))
          (controller_error (Error val) (s\<lparr>closed := reject (closed s) (Error val)\<rparr>))"
    have "settled (closed ?s1)" by simp
    from kept_settled [OF kept_pump(3) this] err show ?thesis by (simp add: switch_error)
  next
    case closed
    let ?s1 = "tryClose (rid s) (s\<lparr>closed := resolve (closed s) (Val Undefined)\<rparr>)"
    have "settled (closed ?s1)" by simp
    from kept_settled [OF kept_pump(3) this] closed show ?thesis by (simp add: switch_closed)
  next
    case close
    let ?s1 = "tryClose (rid s) (s\<lparr>closed := resolve (closed s) (CodeReason kind val)\<rparr>)"
    have "settled (closed ?s1)" by simp
    from kept_settled [OF kept_pump(3) this] close show ?thesis by (simp add: switch_close)
  qed
qed

lemma after_switch_settles:
  assumes "closeSent s = Resolved t0" and "now s - t0 > 5000"
  shows "settled (closed (fst (snd (after_switch d val s sched))))"
proof (cases "closed s = Pending")
  case True
  with assms show ?thesis by (simp add: after_switch_exceeded)
next
  case False
  then show ?thesis by (simp add: after_switch_idle settled_def)
qed

lemma drain_returned:
  "drain r s sched = (out, s1, rest) \<Longrightarrow> closed s1 = closed s \<and> connection s1 = connection s"
  using futures_drain [of r s sched] by simp

lemma settles_closed_step: "settles_closed s a \<Longrightarrow> settled (closed (step s a))"
proof (cases a)
  case (Pull sched)
  assume "settles_closed s a"
  with Pull obtain t kind val rest where s: "sched = (t, Ok kind val) # rest"
    and k: "kind = 5 \<or> kind = 6 \<or> kind = 4 \<or> kind > 6"
    by (auto simp: settles_closed_def split: list.splits reply.splits)
  from switch_settles [OF k, of 0 val "deliver t kind val (enter 0 s)" rest]
  have "settled (closed (fst (snd (pull 0 s sched))))" unfolding s by simp
  then show ?thesis unfolding Pull by (simp only: step_Pull)
next
  case (Resume val sched)
  assume "settles_closed s a"
  with Resume obtain t0 where "closeSent s = Resolved t0" "now s - t0 > 5000"
    by (auto simp: settles_closed_def split: deferred.splits)
  from after_switch_settles [OF this] Resume show ?thesis by simp
next
  case (EarlyCloseResolved r sched)
  assume "settles_closed s a"
  with EarlyCloseResolved have "fst (drain r s sched) = Returned"
    by (simp add: settles_closed_def)
  then obtain s1 rest where "drain r s sched = (Returned, s1, rest)"
    by (cases "drain r s sched") auto
  with EarlyCloseResolved show ?thesis by (simp add: early_close_resolved_def)
qed (auto simp: settles_closed_def create_rejected_def early_close_rejected_def
      close_failed_def Let_def split: option.splits)

lemma settles_connection_step: "settles_connection s a \<Longrightarrow> settled (connection (step s a))"
proof (cases a)
  case (EarlyCloseResolved r sched)
  assume "settles_connection s a"
  with EarlyCloseResolved have "fst (drain r s sched) = Returned"
    by (simp add: settles_connection_def)
  then obtain s1 rest where "drain r s sched = (Returned, s1, rest)"
    by (cases "drain r s sched") auto
  with EarlyCloseResolved show ?thesis by (simp add: early_close_resolved_def)
qed (auto simp: settles_connection_def create_rejected_def early_close_rejected_def
      create_resolved_def Let_def split: option.splits)

text \<open>
  No future settles twice. In every execution of an instance (the constructor, then any
  callbacks \<open>acts\<close> in any order): a future that is settled is not changed by anything
  that runs later (\<open>later\<close> may hold any further paths: an Error event, a terminal event,
  the timeout, a failed connect or close), and whenever a callback \<open>a\<close> is one of the
  paths that settle a future, the future is settled after it and stays as it is then.
\<close>

lemma settled_stays_settled:
  "let s = run (construct sig c) acts; s' = step s a in
     (settled (connection s) \<longrightarrow> connection (run s later) = connection s) \<and>
     (settled (closed s) \<longrightarrow> closed (run s later) = closed s) \<and>
     (settles_connection s a \<longrightarrow>
        settled (connection s') \<and> connection (run s' later) = connection s') \<and>
     (settles_closed s a \<longrightarrow> settled (closed s') \<and> closed (run s' later) = closed s')"
proof -
  let ?s = "run (construct sig c) acts"
  let ?s' = "step ?s a"
  have 1: "settled (connection ?s) \<longrightarrow> connection (run ?s later) = connection ?s"
    using keeps_run [of ?s later] by (auto dest: keeps_settled)
  have 2: "settled (closed ?s) \<longrightarrow> closed (run ?s later) = closed ?s"
    using keeps_run [of ?s later] by (auto dest: keeps_settled)
  have 3: "settles_connection ?s a \<longrightarrow>
      settled (connection ?s') \<and> connection (run ?s' later) = connection ?s'"
    using keeps_run [of ?s' later] settles_connection_step [of ?s a]
    by (auto dest: keeps_settled)
  have 4: "settles_closed ?s a \<longrightarrow> settled (closed ?s') \<and> closed (run ?s' later) = closed ?s'"
    using keeps_run [of ?s' later] settles_closed_step [of ?s a]
    by (auto dest: keeps_settled)
  from 1 2 3 4 show ?thesis by (simp add: Let_def)
qed

subsection \<open>Early close\<close>

lemma drain_finishes:
  assumes "\<forall>x \<in> set pre. \<exists>k' v'. snd x = Ok k' v' \<and> k' \<le> 6" and "k > 6"
  shows "fst (drain r s (pre @ (t, Ok k v) # post)) = Returned"
  using assms
proof (induction pre arbitrary: s)
  case Nil
  then show ?case by (simp add: Let_def)
next
  case (Cons x pre)
  obtain t' y where x: "x = (t', y)" by (cases x)
  from Cons.prems(1) x obtain k' v' where y: "y = Ok k' v'" "k' \<le> 6" by auto
  from Cons.prems have "\<forall>x \<in> set pre. \<exists>k' v'. snd x = Ok k' v' \<and> k' \<le> 6" by simp
  from Cons.IH [OF this Cons.prems(2)] x y show ?case by (simp add: Let_def)
qed

lemma construct_pending:
  assumes "\<not> signal_aborted sig"
  shows "construct sig c = issue (op_ws_create c) (new_wss sig c)"
  using assms by (cases sig) (simp_all add: construct_def signal_aborted_def Let_def)

lemma close_early:
  "connection s = Pending \<Longrightarrow> fst (close s info) = None \<Longrightarrow>
   close s info = (None, s\<lparr>earlyClose := True\<rparr>)"
  by (auto simp: close_def Let_def split: if_splits)

lemma new_wss_slots [simp]:
  "connection (new_wss sig c) = Pending" "closed (new_wss sig c) = Pending"
  "ops (new_wss sig c) = []" "\<not> earlyClose (new_wss sig c)"
  by (simp_all add: new_wss_def)

lemma early_closed_state:
  assumes "\<not> signal_aborted sig" and "fst (close (construct sig c) info) = None"
  shows "ops (early_closed sig c info cr)
           = [op_ws_create c, op_ws_close (Some (create_rid cr)) None None]"
    and "connection (early_closed sig c info cr) = Pending"
    and "closed (early_closed sig c info cr) = Pending"
    and "earlyClose (early_closed sig c info cr)"
proof -
  let ?s0 = "issue (op_ws_create c) (new_wss sig c)"
  have p: "connection ?s0 = Pending" by simp
  from close_early [OF p] assms(2)
  have "close ?s0 info = (None, ?s0\<lparr>earlyClose := True\<rparr>)"
    unfolding construct_pending [OF assms(1)] by simp
  then have e: "early_closed sig c info cr
      = issue (op_ws_close (Some (create_rid cr)) None None) (?s0\<lparr>earlyClose := True\<rparr>)"
    by (simp add: early_closed_def run_def construct_pending [OF assms(1)] create_resolved_def)
  show "ops (early_closed sig c info cr)
           = [op_ws_create c, op_ws_close (Some (create_rid cr)) None None]"
    and "connection (early_closed sig c info cr) = Pending"
    and "closed (early_closed sig c info cr) = Pending"
    and "earlyClose (early_closed sig c info cr)"
    unfolding e by (simp_all add: issue_def)
qed

lemma early_close_resolved_cases:
  "early_close_resolved r sched s =
     (if fst (drain r s sched) = Returned
      then reject_both closed_while_connecting (fst (snd (drain r s sched)))
      else fst (snd (drain r s sched)))"
  by (cases "drain r s sched"; cases "fst (drain r s sched)")
     (simp_all add: early_close_resolved_def)

text \<open>
  Cancellation through the signal: a signal that is aborted at construction rejects both
  futures with its reason and no connect is issued; an interrupted connect rejects both
  with the reason of the signal.
\<close>

lemma construct_aborted:
  "aborted g \<Longrightarrow>
   connection (construct (Some g) c) = Rejected (sig_reason g) \<and>
   closed (construct (Some g) c) = Rejected (sig_reason g) \<and>
   ops (construct (Some g) c) = [] \<and> released (construct (Some g) c) = [Some c]"
  by (simp add: construct_def new_wss_def reject_both_def reject_def tryClose_def Let_def)

lemma create_interrupted:
  "signal s = Some g \<Longrightarrow> connection s = Pending \<Longrightarrow> closed s = Pending \<Longrightarrow>
   connection (create_rejected Interrupted s) = Rejected (sig_reason g) \<and>
   closed (create_rejected Interrupted s) = Rejected (sig_reason g)"
  by (simp add: create_rejected_def reject_def)

text \<open>
  C5, as the code has it. When \<open>close\<close> is called, with a request that passes
  validation, on an instance whose connect has not settled, and the connect then
  succeeds, the constructor sends a close on the new handle and both futures are still
  pending. If that close fails, both \<open>connection\<close> and \<open>closed\<close> are rejected with the
  NetworkError "Closed while connecting". If it succeeds and the loop that follows reads
  an event of a kind above 6, after events of kinds up to 6 only, both are rejected with
  that error as well. Whatever the transport replies, the two futures end up both pending
  or both rejected with that one error.
\<close>

theorem early_close_rejects_both:
  assumes "\<not> signal_aborted sig"
    and "fst (close (construct sig c) info) = None"
  shows "let s = early_closed sig c info cr in
     ops s = [op_ws_create c, op_ws_close (Some (create_rid cr)) None None] \<and>
     connection s = Pending \<and> closed s = Pending \<and>
     connection (early_close_rejected s) = Rejected closed_while_connecting \<and>
     closed (early_close_rejected s) = Rejected closed_while_connecting \<and>
     (k > 6 \<and> (\<forall>x \<in> set pre. \<exists>k' v'. snd x = Ok k' v' \<and> k' \<le> 6) \<longrightarrow>
        connection (early_close_resolved r (pre @ (t, Ok k v) # post) s)
          = Rejected closed_while_connecting \<and>
        closed (early_close_resolved r (pre @ (t, Ok k v) # post) s)
          = Rejected closed_while_connecting) \<and>
     (connection (early_close_resolved r sched s) = Pending \<and>
        closed (early_close_resolved r sched s) = Pending
      \<or> connection (early_close_resolved r sched s) = Rejected closed_while_connecting \<and>
        closed (early_close_resolved r sched s) = Rejected closed_while_connecting)"
proof -
  let ?s = "early_closed sig c info cr"
  note st = early_closed_state [OF assms, of cr]
  have d: "connection (fst (snd (drain r ?s sch))) = Pending"
    "closed (fst (snd (drain r ?s sch))) = Pending" for sch
    using futures_drain [of r ?s sch] st by simp_all
  have 1: "connection (early_close_rejected ?s) = Rejected closed_while_connecting"
    "closed (early_close_rejected ?s) = Rejected closed_while_connecting"
    using st by (simp_all add: early_close_rejected_def reject_def)
  have 2: "connection (early_close_resolved r (pre @ (t, Ok k v) # post) ?s)
          = Rejected closed_while_connecting \<and>
        closed (early_close_resolved r (pre @ (t, Ok k v) # post) ?s)
          = Rejected closed_while_connecting"
    if "k > 6" "\<forall>x \<in> set pre. \<exists>k' v'. snd x = Ok k' v' \<and> k' \<le> 6"
    using drain_finishes [OF that(2,1), of r ?s t v post] d
    by (simp add: early_close_resolved_cases reject_def)
  have 3: "connection (early_close_resolved r sched ?s) = Pending \<and>
        closed (early_close_resolved r sched ?s) = Pending
      \<or> connection (early_close_resolved r sched ?s) = Rejected closed_while_connecting \<and>
        closed (early_close_resolved r sched ?s) = Rejected closed_while_connecting"
    using d by (simp add: early_close_resolved_cases reject_def)
  from st 1 2 3 show ?thesis unfolding Let_def by blast
qed

theorem early_close_rejects_both_witness:
  "\<not> signal_aborted None \<and>
   fst (close (construct None 1) no_info) = None \<and>
   connection (early_close_resolved 7
       ([(1, Ok 3 Undefined), (2, Ok 6 Undefined)] @ (3, Ok 1000 (Text [])) # [])
       (early_closed None 1 no_info create7)) = Rejected closed_while_connecting \<and>
   closed (early_close_resolved 7
       ([(1, Ok 3 Undefined), (2, Ok 6 Undefined)] @ (3, Ok 1000 (Text [])) # [])
       (early_closed None 1 no_info create7)) = Rejected closed_while_connecting"
proof -
  have a: "\<not> signal_aborted None" by (simp add: signal_aborted_def)
  have b: "fst (close (construct None 1) no_info) = None"
    by (simp add: example_defs)
  have c: "(1000 :: nat) > 6" by simp
  have d: "\<forall>x \<in> set [(1 :: int, Ok 3 Undefined), (2, Ok 6 Undefined)].
      \<exists>k' v'. snd x = Ok k' v' \<and> k' \<le> 6" by simp
  from early_close_rejects_both [OF a b, where k = 1000
        and pre = "[(1, Ok 3 Undefined), (2, Ok 6 Undefined)]" and r = 7 and t = 3
        and v = "Text []" and post = "[]" and cr = create7 and sched = "[]"] a b c d
  show ?thesis unfolding Let_def by blast
qed

text \<open>
  C5, as stated, fails: after an early close whose close request fails, both futures are
  settled, not exactly one of them.
\<close>

theorem early_close_settles_both:
  "settled (connection (early_close_rejected (early_closed None 1 no_info create7))) \<and>
   settled (closed (early_close_rejected (early_closed None 1 no_info create7))) \<and>
   connection (early_close_rejected (early_closed None 1 no_info create7))
     = Rejected (DOMException ''Closed while connecting'' ''NetworkError'') \<and>
   closed (early_close_rejected (early_closed None 1 no_info create7))
     = Rejected (DOMException ''Closed while connecting'' ''NetworkError'')"
  by (simp add: early_closed_def early_close_rejected_def reject_both_def
      closed_while_connecting_def example_defs)

subsection \<open>Futures that stay pending\<close>

text \<open>
  After an early close whose close request succeeded, the loop that reads events stops only
  at a kind above 6, and its promise has a fulfilment handler only. In \<open>stalled_example\<close>
  the loop reads a Closed event (kind 6), asks for the next event and that op fails: the
  loop's promise is rejected and nothing handles it. No callback of the instance is
  registered any more then (both transport promises of the constructor have settled, there
  are no streams and no signal), so the public \<open>close\<close> is all that can still run.
\<close>

lemma pending_under_close:
  "connection s = Pending \<Longrightarrow> closed s = Pending \<Longrightarrow>
   connection (run s (map Close infos)) = Pending \<and> closed (run s (map Close infos)) = Pending"
proof (induction infos arbitrary: s)
  case Nil
  then show ?case by (simp add: run_def)
next
  case (Cons i infos)
  have "run s (map Close (i # infos)) = run (snd (close s i)) (map Close infos)"
    by (simp add: run_def)
  with Cons.IH [of "snd (close s i)"] Cons.prems show ?case by simp
qed

lemma stalled_example_eq:
  "stalled_example = early_close_resolved 7
     [(1, Ok 6 Undefined), (2, Failed (OpError ''connection closed''))]
     (early_closed None 1 no_info create7)"
  by (simp add: stalled_example_def early_closed_def run_def)

text \<open>
  C1. The claim: in every execution each of \<open>connection\<close> and \<open>closed\<close> settles exactly
  once. In the execution of \<open>stalled_example\<close> neither settles: both are pending when
  the loop has failed, and they stay pending under every sequence of calls of \<open>close\<close>
  that follows.
\<close>

theorem futures_left_pending:
  "connection stalled_example = Pending \<and> closed stalled_example = Pending \<and>
   ops stalled_example
     = [op_ws_create 1, op_ws_close (Some 7) None None,
        op_ws_next_event (Some 7), op_ws_next_event (Some 7)] \<and>
   (\<forall>infos. connection (run stalled_example (map Close infos)) = Pending \<and>
      closed (run stalled_example (map Close infos)) = Pending)"
proof -
  have a: "\<not> signal_aborted None" by (simp add: signal_aborted_def)
  have b: "fst (close (construct None 1) no_info) = None" by (simp add: example_defs)
  note st = early_closed_state [OF a b, of create7]
  let ?sch = "[(1, Ok 6 Undefined), (2, Failed (OpError ''connection closed''))]"
  let ?e = "early_closed None 1 no_info create7"
  have d: "fst (drain 7 ?e ?sch) \<noteq> Returned" by (simp add: Let_def)
  then have s: "stalled_example = fst (snd (drain 7 ?e ?sch))"
    by (simp only: stalled_example_eq early_close_resolved_cases if_False)
  have c: "connection stalled_example = Pending" "closed stalled_example = Pending"
    unfolding s using futures_drain [of 7 ?e ?sch] st by simp_all
  have o: "ops stalled_example
     = [op_ws_create 1, op_ws_close (Some 7) None None,
        op_ws_next_event (Some 7), op_ws_next_event (Some 7)]"
    unfolding s using st(1) by (simp add: Let_def deliver_def ops_issue create7_def)
  from c o pending_under_close [OF c] show ?thesis by blast
qed

subsection \<open>The streams at the end\<close>

lemma streams_close [simp]:
  "readable (snd (close s info)) = readable s" "writable (snd (close s info)) = writable s"
  "closeSent (snd (close s info)) = closeSent s"
  by (simp_all add: close_def issue_def Let_def)

lemma streams_close_eq:
  "close s info = (e, s1) \<Longrightarrow>
   readable s1 = readable s \<and> writable s1 = writable s \<and> closeSent s1 = closeSent s"
  using streams_close [of s info] by simp

lemma streams_stream_close [simp]:
  "readable (stream_close r s) = readable s" "writable (stream_close r s) = writable s"
  "closeSent (stream_close r s) = closeSent s"
  by (auto simp: stream_close_def Let_def split: prod.splits option.splits
      dest: streams_close_eq)

lemma streams_finish [simp]:
  "readable (sink_close_finish s) = readable s"
  by (simp add: sink_close_finish_def split: deferred.splits)

lemma finish_resolved:
  "closed s = Resolved v \<Longrightarrow> writable s = WClosing \<Longrightarrow> writable (sink_close_finish s) = WClosed"
  by (simp add: sink_close_finish_def)

text \<open>
  C10, as the code has it. The reaction on \<open>closed\<close> runs when \<open>closed\<close> is resolved
  (clean close, peer close, forced timeout). It closes the readable side if that is still
  readable and closes the writable side if that is still writable; a side that is closed,
  closing or errored already is left as it is, so a writable side that was aborted or
  whose write failed stays errored. When \<open>closed\<close> is rejected the reaction does not
  run and changes nothing.
\<close>

theorem closed_then_closes_streams:
  "(closed s = Resolved v \<longrightarrow>
      (readable s = Readable \<longrightarrow> readable (closed_then s) = RClosed) \<and>
      (readable s \<noteq> Readable \<longrightarrow> readable (closed_then s) = readable s) \<and>
      (writable s = Writable \<longrightarrow> writable (closed_then s) = WClosed) \<and>
      (writable s \<noteq> Writable \<longrightarrow> writable (closed_then s) = writable s)) \<and>
   (closed s = Rejected e \<longrightarrow> closed_then s = s)"
proof -
  let ?s1 = "case controller_close s of Inl _ \<Rightarrow> s | Inr s1 \<Rightarrow> s1"
  have r1: "readable ?s1 = (if readable s = Readable then RClosed else readable s)"
    and w1: "writable ?s1 = writable s" and c1: "closed ?s1 = closed s"
    by (simp_all add: controller_close_def)
  have t: "closed_then s = writableStreamClose ?s1" if "closed s = Resolved v"
    using that by (simp add: closed_then_def)
  have r: "readable (writableStreamClose ?s1) = readable ?s1"
    by (simp add: writableStreamClose_def)
  have w: "writable (writableStreamClose ?s1) = WClosed"
    if "closed s = Resolved v" "writable s = Writable"
  proof -
    let ?s2 = "stream_close None (?s1\<lparr>writable := WClosing\<rparr>)"
    have "closed ?s2 = Resolved v" "writable ?s2 = WClosing"
      using that c1 by simp_all
    from finish_resolved [OF this] that(2) w1 show ?thesis
      by (simp add: writableStreamClose_def)
  qed
  have w': "writable (writableStreamClose ?s1) = writable s" if "writable s \<noteq> Writable"
    using that w1 by (simp add: writableStreamClose_def)
  have 2: "closed_then s = s" if "closed s = Rejected e"
    using that by (simp add: closed_then_def)
  from t r r1 w w' 2 show ?thesis by auto
qed

lemma open_example_slots:
  "closed open_example = Pending" "closeSent open_example = Pending"
  "readable open_example = Readable" "writable open_example = Writable"
  "rid open_example = Some 7"
  by (simp_all add: example_defs)

lemma clean_example_eq:
  "clean_example = tryClose (Some 7)
     ((deliver 1 6 Undefined (enter 0 open_example))\<lparr>closed := Resolved (Val Undefined)\<rparr>)"
  by (simp add: clean_example_def run_def switch_closed after_switch_idle open_example_slots
      resolve_def)

lemma error_example_eq:
  "error_example = tryClose (Some 7)
     ((deliver 1 5 (Text [98, 97, 100]) (enter 0 open_example))
        \<lparr>closed := Rejected (Error (Text [98, 97, 100])),
         readable := RErrored (Error (Text [98, 97, 100]))\<rparr>)"
  by (simp add: error_example_def run_def switch_error after_switch_idle open_example_slots
      reject_def controller_error_def deliver_def enter_def issue_def tryClose_def)

lemma aborted_writer_slots:
  "closed (run open_example [WriterAbort None]) = Pending"
  "closeSent (run open_example [WriterAbort None]) = Pending"
  "readable (run open_example [WriterAbort None]) = Readable"
  "writable (run open_example [WriterAbort None]) = WErrored"
  by (simp_all add: run_def writable_abort_def open_example_slots)

lemma aborted_example_slots:
  "closed aborted_example = Resolved (Val Undefined)" "readable aborted_example = Readable"
  "writable aborted_example = WErrored"
proof -
  let ?s = "run open_example [WriterAbort None]"
  have "aborted_example = step ?s (Pull [(1, Ok 6 Undefined)])"
    by (simp add: aborted_example_def run_def)
  also have "\<dots> = tryClose (rid (deliver 1 6 Undefined (enter 0 ?s)))
      ((deliver 1 6 Undefined (enter 0 ?s))\<lparr>closed := Resolved (Val Undefined)\<rparr>)"
    by (simp add: switch_closed after_switch_idle aborted_writer_slots resolve_def)
  finally have eq: "aborted_example = tryClose (rid (deliver 1 6 Undefined (enter 0 ?s)))
      ((deliver 1 6 Undefined (enter 0 ?s))\<lparr>closed := Resolved (Val Undefined)\<rparr>)" .
  show "closed aborted_example = Resolved (Val Undefined)"
    and "readable aborted_example = Readable" and "writable aborted_example = WErrored"
    unfolding eq
    by (simp_all add: tryClose_def deliver_def enter_def issue_def aborted_writer_slots)
qed

theorem closed_then_closes_streams_witness:
  "closed clean_example = Resolved (Val Undefined) \<and> readable clean_example = Readable \<and>
   writable clean_example = Writable \<and>
   readable (closed_then clean_example) = RClosed \<and>
   writable (closed_then clean_example) = WClosed \<and>
   closed aborted_example = Resolved (Val Undefined) \<and> writable aborted_example = WErrored \<and>
   readable (closed_then aborted_example) = RClosed \<and>
   writable (closed_then aborted_example) = WErrored \<and>
   closed error_example = Rejected (Error (Text [98, 97, 100])) \<and>
   closed_then error_example = error_example"
proof -
  have c: "closed clean_example = Resolved (Val Undefined)" "readable clean_example = Readable"
    "writable clean_example = Writable"
    by (simp_all add: clean_example_eq tryClose_def deliver_def enter_def issue_def
        open_example_slots)
  have e: "closed error_example = Rejected (Error (Text [98, 97, 100]))"
    by (simp add: error_example_eq tryClose_def)
  have w: "WErrored \<noteq> Writable" by simp
  note a = aborted_example_slots
  from closed_then_closes_streams [of clean_example "Val Undefined"]
    closed_then_closes_streams [of aborted_example "Val Undefined"]
    closed_then_closes_streams [of error_example _ "Error (Text [98, 97, 100])"] c e a w
  show ?thesis by metis
qed

text \<open>
  C10, as stated, fails on rejection: after a failed close request both streams are as
  they were, and after an Error event the readable side is errored, not closed, and the
  writable side is still open.
\<close>

theorem rejection_leaves_streams_open:
  "closed close_failed_example = Rejected (OpError ''broken pipe'') \<and>
   readable (closed_then close_failed_example) = Readable \<and>
   writable (closed_then close_failed_example) = Writable \<and>
   closed error_example = Rejected (Error (Text [98, 97, 100])) \<and>
   readable (closed_then error_example) = RErrored (Error (Text [98, 97, 100])) \<and>
   writable (closed_then error_example) = Writable"
  by (simp add: error_example_eq closed_then_def tryClose_def deliver_def enter_def issue_def
      open_example_slots)
     (simp add: example_defs)

end
